theory Spec2Isabelle
  imports Main
begin

section \<open>The autograd-zero specialisation pass\<close>

text \<open>
  A shallow embedding of \<^verbatim>\<open>specializeAutogradZero\<close>
  (torch/csrc/jit/passes/specialize\_autogradzero.cpp). The pass seeds a classification
  for the graph inputs, then walks the nodes of the graph's primary block once, rewriting
  \<^verbatim>\<open>prim::GradOf\<close> and \<^verbatim>\<open>prim::AutogradAdd\<close> nodes in place.
\<close>

subsection \<open>The classification and the types it is seeded from\<close>

text \<open>
  \<^verbatim>\<open>enum class State { Nonzero, Zero, Unknown };\<close> The order of the enumerators
  matters: \<^verbatim>\<open>Nonzero\<close> is the value-initialised one.
\<close>

datatype State = Nonzero | Zero | Unknown

text \<open>
  The type system is not part of the pass; a type is what the seeding loop observes of it.
  \<open>TensorType fl\<close> is a type for which \<^verbatim>\<open>tp->cast<TensorType>()\<close> succeeds, with
  \<open>fl\<close> the optional flag \<^verbatim>\<open>autogradZero()\<close>. \<open>OtherType t l\<close> is a type for
  which the cast fails, with \<open>t\<close> the answer of \<^verbatim>\<open>isSubtypeOf(TensorType::get())\<close>
  and \<open>l\<close> the answer of \<^verbatim>\<open>isSubtypeOf(ListType::ofTensors())\<close>.
\<close>

datatype Type = TensorType "bool option" | OtherType bool bool

subsection \<open>Values, nodes and blocks\<close>

text \<open>
  A \<^verbatim>\<open>Value*\<close> is an identity; so is a \<^verbatim>\<open>Node*\<close>. A node has a kind,
  ordered inputs (the values it uses), ordered outputs (the values it defines) and owned
  nested blocks; a block has ordered nodes and ordered output values, which are uses too.
\<close>

type_synonym Value = nat

datatype NodeKind = GradOf | AutogradAdd | AutogradZero | aten_add | OtherKind nat

datatype Node =
  Node (node_id: nat) (kind: NodeKind) (inputs: "Value list") (outputs: "Value list")
       (blocks: "Block list")
and Block =
  Block (block_nodes: "Node list") (block_outputs: "Value list")

record Graph =
  graph_inputs :: "Value list"
  value_type :: "Value \<Rightarrow> Type"
  graph_nodes :: "Node list"
  graph_outputs :: "Value list"
  next_unique :: nat

text \<open>
  \<open>next_unique\<close> stands for allocation: a node or value created by the pass takes the
  identity \<open>next_unique\<close>, which is then advanced. Node and value identities are separate
  name spaces.
\<close>

subsection \<open>The classification map\<close>

text \<open>
  \<^verbatim>\<open>std::unordered_map<Value*, State> state;\<close> A key is in the domain of the map when
  a classification has been assigned to it. Reading \<^verbatim>\<open>state[v]\<close> for a key with no
  entry value-initialises one, which is \<^verbatim>\<open>State::Nonzero\<close>; the entry so created
  holds what every later read of an absent key would return anyway, so reading is modelled
  without it.
\<close>

definition state_at :: "(Value \<rightharpoonup> State) \<Rightarrow> Value \<Rightarrow> State" where
  "state_at st v = (case st v of None \<Rightarrow> Nonzero | Some s \<Rightarrow> s)"

subsection \<open>Seeding (lines 17 to 32)\<close>

definition seed_input :: "Type \<Rightarrow> State" where
  "seed_input tp =
     (case tp of
        TensorType fl \<Rightarrow> (case fl of None \<Rightarrow> Nonzero | Some z \<Rightarrow> if z then Zero else Nonzero)
      | OtherType t l \<Rightarrow> (if t \<or> l then Nonzero else Unknown))"

fun seed :: "(Value \<Rightarrow> Type) \<Rightarrow> Value list \<Rightarrow> (Value \<rightharpoonup> State) \<Rightarrow> (Value \<rightharpoonup> State)" where
  "seed tp [] st = st"
| "seed tp (input # vs) st = seed tp vs (st(input \<mapsto> seed_input (tp input)))"

subsection \<open>The graph under the iterator\<close>

text \<open>
  The scan holds an iterator \<^verbatim>\<open>it\<close> into the node list of the primary block, which is
  mutated under it. \<open>front\<close> are the nodes in front of the iterator, \<open>rest\<close> the node it
  points to and those behind it (\<open>rest = []\<close>: the iterator is at the end), \<open>outs\<close> the
  graph's outputs, \<open>fresh\<close> the next unused identity.
\<close>

record Scan =
  state :: "Value \<rightharpoonup> State"
  front :: "Node list"
  rest :: "Node list"
  outs :: "Value list"
  fresh :: nat

text \<open>
  Modelled from the spec: \<^verbatim>\<open>Value::replaceAllUsesWith\<close>, "redirect all uses of a
  value to another value". The uses of a value are the node inputs and the block outputs
  that hold it, at any depth of the graph.
\<close>

definition replaceUse :: "Value \<Rightarrow> Value \<Rightarrow> Value \<Rightarrow> Value" where
  "replaceUse v w x = (if x = v then w else x)"

primrec map_uses :: "(Value \<Rightarrow> Value) \<Rightarrow> Node \<Rightarrow> Node"
  and map_uses_block :: "(Value \<Rightarrow> Value) \<Rightarrow> Block \<Rightarrow> Block" where
  "map_uses f (Node i k ins os bs) = Node i k (map f ins) os (map (map_uses_block f) bs)"
| "map_uses_block f (Block ns bos) = Block (map (map_uses f) ns) (map f bos)"

definition redirect :: "(Value \<Rightarrow> Value) \<Rightarrow> Scan \<Rightarrow> Scan" where
  "redirect f c =
     c\<lparr>front := map (map_uses f) (front c),
       rest := map (map_uses f) (rest c),
       outs := map f (outs c)\<rparr>"

definition replaceAllUsesWith :: "Value \<Rightarrow> Value \<Rightarrow> Scan \<Rightarrow> Scan" where
  "replaceAllUsesWith v w c = redirect (replaceUse v w) c"

text \<open>
  Modelled from the spec: \<^verbatim>\<open>it.destroyCurrent()\<close> followed by the loop's
  \<^verbatim>\<open>++it\<close>, "remove a node (and, when it owns one, its nested block) from its
  containing block": the node under the iterator is gone and the iterator is at the node that
  followed it. \<open>advance\<close> is the \<^verbatim>\<open>++it\<close> of an iteration that keeps the node.
\<close>

definition destroyCurrent :: "Scan \<Rightarrow> Scan" where
  "destroyCurrent c = c\<lparr>rest := tl (rest c)\<rparr>"

definition advance :: "Scan \<Rightarrow> Scan" where
  "advance c = c\<lparr>front := front c @ take 1 (rest c), rest := tl (rest c)\<rparr>"

text \<open>
  Modelled from the spec: \<^verbatim>\<open>g.createAutogradZero()\<close> and the helper behind
  \<^verbatim>\<open>toVar(a) + toVar(b)\<close>, "construct a new node of a given kind with given inputs" and
  "a helper that, given two values, produces a new value representing their ordinary sum":
  one new node with one new output value.
\<close>

definition createAutogradZero :: "nat \<Rightarrow> Node" where
  "createAutogradZero k = Node k AutogradZero [] [k] []"

definition create_add :: "nat \<Rightarrow> Value \<Rightarrow> Value \<Rightarrow> Node" where
  "create_add k a b = Node k aten_add [a, b] [k] []"

text \<open>\<^verbatim>\<open>node->insertAfter(n)\<close> and an insertion at \<^verbatim>\<open>WithInsertPoint guard(n)\<close>,
  for \<open>n\<close> the node under the iterator.\<close>

definition insertAfter :: "Node \<Rightarrow> Scan \<Rightarrow> Scan" where
  "insertAfter m c = (case rest c of [] \<Rightarrow> c | n # post \<Rightarrow> c\<lparr>rest := n # m # post\<rparr>)"

definition insertBefore :: "Node \<Rightarrow> Scan \<Rightarrow> Scan" where
  "insertBefore m c = c\<lparr>front := front c @ [m]\<rparr>"

text \<open>
  Lines 66 to 69: every node of the body is moved, in order, to just before the node under
  the iterator; the body is left without nodes.
\<close>

definition drop_body_nodes :: "Node \<Rightarrow> Node" where
  "drop_body_nodes n =
     (case blocks n of
        [] \<Rightarrow> n
      | body # bs \<Rightarrow> Node (node_id n) (kind n) (inputs n) (outputs n)
                       (Block [] (block_outputs body) # bs))"

definition hoist :: "Scan \<Rightarrow> Scan" where
  "hoist c =
     (case rest c of
        [] \<Rightarrow> c
      | n # post \<Rightarrow>
          (case blocks n of
             [] \<Rightarrow> c
           | body # bs \<Rightarrow>
               c\<lparr>front := fold (\<lambda>block_node pre. pre @ [block_node]) (block_nodes body) (front c),
                 rest := drop_body_nodes n # post\<rparr>))"

text \<open>
  Lines 71 and 72. \<^verbatim>\<open>body->outputs()\<close> is read again in every iteration, from the
  graph as the earlier iterations left it; \<^verbatim>\<open>.at(i)\<close> throws when the body has no
  \<open>i\<close>-th output.
\<close>

datatype error = UnknownInput | OutOfRange | NotOneOutput

definition body_outputs :: "Scan \<Rightarrow> Value list" where
  "body_outputs c =
     (case rest c of
        [] \<Rightarrow> []
      | n # post \<Rightarrow> (case blocks n of [] \<Rightarrow> [] | body # bs \<Rightarrow> block_outputs body))"

fun rewire :: "nat \<Rightarrow> Value list \<Rightarrow> Scan \<Rightarrow> (error \<times> Scan) + Scan" where
  "rewire i [] c = Inr c"
| "rewire i (out # os) c =
     (if i < length (body_outputs c)
      then rewire (Suc i) os (replaceAllUsesWith out (body_outputs c ! i) c)
      else Inl (OutOfRange, c))"

text \<open>\<^verbatim>\<open>n->output()\<close> asserts that the node has exactly one output.\<close>

definition output_of :: "Node \<Rightarrow> Value option" where
  "output_of n = (case outputs n of [out] \<Rightarrow> Some out | _ \<Rightarrow> None)"

subsection \<open>One iteration of the scan (lines 35 to 111)\<close>

text \<open>
  The result is \<open>Inr\<close> of the scan after the iteration, iterator advanced, or \<open>Inl\<close> of
  the error thrown and the scan as it was when it was thrown (the graph is mutated in
  place, so the caller of a failed pass holds that graph).
\<close>

definition visit_GradOf :: "Node \<Rightarrow> Scan \<Rightarrow> (error \<times> Scan) + Scan" where
  "visit_GradOf n c =
     (if list_all (\<lambda>v. state_at (state c) v = Zero) (inputs n) then
        let zero = fresh c;
            c1 = insertAfter (createAutogradZero zero) (c\<lparr>fresh := Suc zero\<rparr>);
            c2 = fold (\<lambda>out. replaceAllUsesWith out zero) (outputs n) c1
        in Inr (destroyCurrent c2)
      else
        (case blocks n of
           [] \<Rightarrow> Inl (OutOfRange, c)
         | body # bs \<Rightarrow>
             if list_ex (\<lambda>input. state_at (state c) input = Unknown) (inputs n)
             then Inl (UnknownInput, c)
             else (case rewire 0 (outputs n) (hoist c) of
                     Inl e \<Rightarrow> Inl e
                   | Inr c' \<Rightarrow> Inr (destroyCurrent c'))))"

definition visit_AutogradAdd :: "Node \<Rightarrow> Scan \<Rightarrow> (error \<times> Scan) + Scan" where
  "visit_AutogradAdd n c =
     (case inputs n of
        a # b # _ \<Rightarrow>
          if state_at (state c) a = Zero then
            (case output_of n of
               None \<Rightarrow> Inl (NotOneOutput, c)
             | Some out \<Rightarrow> Inr (destroyCurrent (replaceAllUsesWith out b c)))
          else if state_at (state c) b = Zero then
            (case output_of n of
               None \<Rightarrow> Inl (NotOneOutput, c)
             | Some out \<Rightarrow> Inr (destroyCurrent (replaceAllUsesWith out a c)))
          else if state_at (state c) a = Nonzero \<and> state_at (state c) b = Nonzero then
            let new_add = fresh c;
                c1 = insertBefore (create_add new_add a b) (c\<lparr>fresh := Suc new_add\<rparr>);
                c2 = c1\<lparr>state := (state c1)(new_add \<mapsto> Nonzero)\<rparr>
            in (case output_of n of
                  None \<Rightarrow> Inl (NotOneOutput, c2)
                | Some out \<Rightarrow> Inr (destroyCurrent (replaceAllUsesWith out new_add c2)))
          else
            (case output_of n of
               None \<Rightarrow> Inl (NotOneOutput, c)
             | Some out \<Rightarrow> Inr (advance (c\<lparr>state := (state c)(out \<mapsto> Unknown)\<rparr>)))
      | _ \<Rightarrow> Inl (OutOfRange, c))"

definition visit_AutogradZero :: "Node \<Rightarrow> Scan \<Rightarrow> (error \<times> Scan) + Scan" where
  "visit_AutogradZero n c =
     (case output_of n of
        None \<Rightarrow> Inl (NotOneOutput, c)
      | Some out \<Rightarrow> Inr (advance (c\<lparr>state := (state c)(out \<mapsto> Zero)\<rparr>)))"

definition visit_default :: "Node \<Rightarrow> Scan \<Rightarrow> (error \<times> Scan) + Scan" where
  "visit_default n c =
     Inr (advance (c\<lparr>state := fold (\<lambda>out st. st(out \<mapsto> Unknown)) (outputs n) (state c)\<rparr>))"

definition visit :: "Scan \<Rightarrow> (error \<times> Scan) + Scan" where
  "visit c =
     (case rest c of
        [] \<Rightarrow> Inr c
      | n # post \<Rightarrow>
          (case kind n of
             GradOf \<Rightarrow> visit_GradOf n c
           | AutogradAdd \<Rightarrow> visit_AutogradAdd n c
           | AutogradZero \<Rightarrow> visit_AutogradZero n c
           | aten_add \<Rightarrow> visit_default n c
           | OtherKind k \<Rightarrow> visit_default n c))"

subsection \<open>What an iteration reads of the classification map\<close>

text \<open>
  The keys of the lookups \<^verbatim>\<open>state[...]\<close> whose value the iteration uses, in the order
  they are made. Lines 38 to 41: \<^verbatim>\<open>std::all_of\<close> stops at the first input that is not
  \<open>Zero\<close>. Lines 58 to 64: the assertion loop, reached when not all inputs are \<open>Zero\<close>
  and \<^verbatim>\<open>blocks().at(0)\<close> did not throw, stops at the first input that is \<open>Unknown\<close>.
  Lines 80, 84 and 88: the conditions of the guarded addition, with the short circuit of
  \<^verbatim>\<open>&&\<close>.
\<close>

definition reads_GradOf :: "(Value \<rightharpoonup> State) \<Rightarrow> Node \<Rightarrow> Value list" where
  "reads_GradOf st n =
     (let is_zero = (\<lambda>v. state_at st v = Zero);
          is_known = (\<lambda>input. state_at st input \<noteq> Unknown)
      in takeWhile is_zero (inputs n) @ take 1 (dropWhile is_zero (inputs n)) @
         (if list_all is_zero (inputs n) \<or> blocks n = [] then []
          else takeWhile is_known (inputs n) @ take 1 (dropWhile is_known (inputs n))))"

definition reads_AutogradAdd :: "(Value \<rightharpoonup> State) \<Rightarrow> Node \<Rightarrow> Value list" where
  "reads_AutogradAdd st n =
     (case inputs n of
        a # b # _ \<Rightarrow>
          a # (if state_at st a = Zero then []
               else b # (if state_at st b = Zero then []
                         else a # (if state_at st a = Nonzero then [b] else [])))
      | _ \<Rightarrow> [])"

definition reads :: "Scan \<Rightarrow> Value list" where
  "reads c =
     (case rest c of
        [] \<Rightarrow> []
      | n # post \<Rightarrow>
          (case kind n of
             GradOf \<Rightarrow> reads_GradOf (state c) n
           | AutogradAdd \<Rightarrow> reads_AutogradAdd (state c) n
           | AutogradZero \<Rightarrow> []
           | aten_add \<Rightarrow> []
           | OtherKind k \<Rightarrow> []))"

subsection \<open>Uses are redirected, nothing else changes\<close>

lemma map_uses_sel [simp]:
  "node_id (map_uses f n) = node_id n"
  "kind (map_uses f n) = kind n"
  "inputs (map_uses f n) = map f (inputs n)"
  "outputs (map_uses f n) = outputs n"
  "blocks (map_uses f n) = map (map_uses_block f) (blocks n)"
  by (cases n; simp)+

lemma map_uses_block_sel [simp]:
  "block_nodes (map_uses_block f b) = map (map_uses f) (block_nodes b)"
  "block_outputs (map_uses_block f b) = map f (block_outputs b)"
  by (cases b; simp)+

subsection \<open>The scan (lines 34 to 112) and the pass\<close>

text \<open>
  An iteration that collapses an all-zero region leaves the new zero node under the
  iterator, so the number of nodes still to visit does not decrease there; the number of
  \<^verbatim>\<open>GradOf\<close> nodes among them does.
\<close>

definition todo :: "Scan \<Rightarrow> nat" where
  "todo c = length (rest c) + length (filter (\<lambda>n. kind n = GradOf) (rest c))"

lemma todo_replaceAllUsesWith [simp]: "todo (replaceAllUsesWith v w c) = todo c"
  by (simp add: todo_def replaceAllUsesWith_def redirect_def filter_map comp_def)

lemma todo_fold_replace [simp]:
  "todo (fold (\<lambda>out. replaceAllUsesWith out w) os c) = todo c"
  by (induction os arbitrary: c) auto

lemma todo_rewire: "rewire i os c = Inr c' \<Longrightarrow> todo c' = todo c"
  by (induction i os c rule: rewire.induct) (auto split: if_splits)

lemma todo_hoist [simp]: "todo (hoist c) = todo c"
  by (auto simp: todo_def hoist_def drop_body_nodes_def split: list.splits)

lemma todo_destroyCurrent: "rest c \<noteq> [] \<Longrightarrow> todo (destroyCurrent c) < todo c"
  by (cases "rest c") (auto simp: todo_def destroyCurrent_def)

lemma rest_rewire_Nil: "rewire i os c = Inr c' \<Longrightarrow> (rest c' = []) = (rest c = [])"
  by (induction i os c rule: rewire.induct) (auto split: if_splits simp: replaceAllUsesWith_def redirect_def)

lemma todo_state_update [simp]: "todo (c\<lparr>state := s\<rparr>) = todo c"
  by (simp add: todo_def)

lemma map_uses_comp:
  "map_uses f (map_uses g n) = map_uses (f \<circ> g) n"
  "map_uses_block f (map_uses_block g b) = map_uses_block (f \<circ> g) b"
  by (induction n and b) auto

lemma map_uses_id:
  "map_uses (\<lambda>x. x) n = n"
  "map_uses_block (\<lambda>x. x) b = b"
  by (induction n and b) (auto simp: map_idI)

lemma rest_fold_replace:
  "rest (fold (\<lambda>out. replaceAllUsesWith out w) os c) =
     map (map_uses (\<lambda>x. if x \<in> set os then w else x)) (rest c)"
proof (induction os arbitrary: c)
  case Nil
  show ?case by (simp add: map_uses_id)
next
  case (Cons a os)
  have "(\<lambda>x. if x \<in> set os then w else x) \<circ> replaceUse a w = (\<lambda>x. if x \<in> set (a # os) then w else x)"
    by (auto simp: replaceUse_def fun_eq_iff)
  with Cons show ?case
    by (simp add: replaceAllUsesWith_def redirect_def map_uses_comp)
qed

lemma visit_GradOf_decreases:
  "rest c = n # post \<Longrightarrow> kind n = GradOf \<Longrightarrow> visit_GradOf n c = Inr c' \<Longrightarrow> todo c' < todo c"
proof -
  assume r: "rest c = n # post" and k: "kind n = GradOf" and v: "visit_GradOf n c = Inr c'"
  show ?thesis
  proof (cases "list_all (\<lambda>v. state_at (state c) v = Zero) (inputs n)")
    case True
    let ?c1 = "insertAfter (createAutogradZero (fresh c)) (c\<lparr>fresh := Suc (fresh c)\<rparr>)"
    let ?c2 = "fold (\<lambda>out. replaceAllUsesWith out (fresh c)) (outputs n) ?c1"
    from True v have c': "c' = destroyCurrent ?c2"
      by (simp add: visit_GradOf_def Let_def)
    have t1: "todo ?c1 = Suc (todo c)"
      using r k by (simp add: insertAfter_def todo_def createAutogradZero_def)
    have "rest ?c1 \<noteq> []"
      using r by (simp add: insertAfter_def)
    then have "rest ?c2 \<noteq> []"
      by (simp add: rest_fold_replace)
    moreover have "kind (hd (rest ?c2)) = GradOf"
      using r k by (simp add: rest_fold_replace insertAfter_def)
    ultimately have "Suc (Suc (todo (destroyCurrent ?c2))) = todo ?c2"
      by (cases "rest ?c2") (auto simp: todo_def destroyCurrent_def)
    with t1 c' show ?thesis by simp
  next
    case False
    with v obtain c2 where rw: "rewire 0 (outputs n) (hoist c) = Inr c2" and c': "c' = destroyCurrent c2"
      by (auto simp: visit_GradOf_def split: list.splits if_splits sum.splits)
    from rw have "todo c2 = todo c" by (simp add: todo_rewire)
    moreover from rw r have "rest c2 \<noteq> []"
      by (auto simp: rest_rewire_Nil hoist_def split: list.splits)
    ultimately show ?thesis using c' todo_destroyCurrent by metis
  qed
qed

lemma visit_AutogradAdd_decreases:
  "rest c \<noteq> [] \<Longrightarrow> visit_AutogradAdd n c = Inr c' \<Longrightarrow> todo c' < todo c"
  unfolding visit_AutogradAdd_def
  by (auto split: list.splits if_splits option.splits
      simp: Let_def replaceAllUsesWith_def redirect_def insertBefore_def todo_def destroyCurrent_def advance_def neq_Nil_conv filter_map comp_def)

lemma visit_decreases: "rest c \<noteq> [] \<Longrightarrow> visit c = Inr c' \<Longrightarrow> todo c' < todo c"
proof -
  assume ne: "rest c \<noteq> []" and v: "visit c = Inr c'"
  then obtain n post where r: "rest c = n # post" by (auto simp: neq_Nil_conv)
  show ?thesis
  proof (cases "kind n")
    case GradOf
    with v r show ?thesis by (simp add: visit_def visit_GradOf_decreases)
  next
    case AutogradAdd
    with v r ne show ?thesis by (simp add: visit_def visit_AutogradAdd_decreases)
  next
    case AutogradZero
    with v r show ?thesis
      by (auto simp: visit_def visit_AutogradZero_def todo_def advance_def split: option.splits)
  next
    case aten_add
    with v r show ?thesis
      by (auto simp: visit_def visit_default_def todo_def advance_def)
  next
    case (OtherKind k)
    with v r show ?thesis
      by (auto simp: visit_def visit_default_def todo_def advance_def)
  qed
qed

text \<open>The loop of line 34: visit the node under the iterator until the iterator is at the end.\<close>

function scan :: "Scan \<Rightarrow> (error \<times> Scan) + Scan" where
  "scan c = (if rest c = [] then Inr c
             else (case visit c of Inl e \<Rightarrow> Inl e | Inr c' \<Rightarrow> scan c'))"
  by pat_completeness auto
termination
  by (relation "measure todo") (auto simp: visit_decreases)

declare scan.simps [simp del]

text \<open>
  The pass. It returns the graph it was given, rewritten, or the error thrown with the
  scan at that moment.
\<close>

definition begin_scan :: "Graph \<Rightarrow> Scan" where
  "begin_scan g =
     \<lparr>state = seed (value_type g) (graph_inputs g) Map.empty, front = [],
      rest = graph_nodes g, outs = graph_outputs g, fresh = next_unique g\<rparr>"

definition specializeAutogradZero :: "Graph \<Rightarrow> (error \<times> Scan) + Graph" where
  "specializeAutogradZero g =
     (case scan (begin_scan g) of
        Inl e \<Rightarrow> Inl e
      | Inr c \<Rightarrow> Inr (g\<lparr>graph_nodes := front c, graph_outputs := outs c, next_unique := fresh c\<rparr>))"

text \<open>
  \<open>reads_classified c\<close>: in every iteration of the scan, from \<open>c\<close> on, each key that the
  iteration reads has an entry in the map, assigned before the read.
\<close>

function reads_classified :: "Scan \<Rightarrow> bool" where
  "reads_classified c =
     (if rest c = [] then True
      else list_all (\<lambda>v. state c v \<noteq> None) (reads c) \<and>
           (case visit c of Inl e \<Rightarrow> True | Inr c' \<Rightarrow> reads_classified c'))"
  by pat_completeness auto
termination
  by (relation "measure todo") (auto simp: visit_decreases)

declare reads_classified.simps [simp del]

section \<open>Properties of the pass\<close>

subsection \<open>Seeding\<close>

lemma seed_at: "seed tp vs st v = (if v \<in> set vs then Some (seed_input (tp v)) else st v)"
  by (induction vs arbitrary: st) auto

text \<open>
  A graph whose three inputs have a tensor type flagged zero, a type that is a list of
  tensors, and a type that is neither.
\<close>

definition three_inputs :: Graph where
  "three_inputs =
     \<lparr>graph_inputs = [0, 1, 2],
      value_type = (\<lambda>v. if v = 0 then TensorType (Some True)
                         else if v = 1 then OtherType False True else OtherType False False),
      graph_nodes = [], graph_outputs = [], next_unique = 3\<rparr>"

text \<open>
  Claim C2. Every graph input is given exactly one classification when the scan begins, and
  the classification is a function of the input's type alone: \<open>Zero\<close> for a tensor type
  whose structurally-zero flag is present and true, \<open>Nonzero\<close> for a tensor type whose flag
  is false or absent and for a type that is a subtype of tensor or of list of tensors,
  \<open>Unknown\<close> for any other type.
\<close>

theorem C2_seeding:
  "input \<in> set (graph_inputs g) \<Longrightarrow>
   state (begin_scan g) input =
     Some (case value_type g input of
             TensorType fl \<Rightarrow> if fl = Some True then Zero else Nonzero
           | OtherType is_tensor is_tensor_list \<Rightarrow>
               if is_tensor \<or> is_tensor_list then Nonzero else Unknown)"
  by (auto simp: begin_scan_def seed_at seed_input_def split: Type.splits option.splits)

theorem C2_seeding_witness:
  "0 \<in> set (graph_inputs three_inputs) \<and> state (begin_scan three_inputs) 0 = Some Zero \<and>
   1 \<in> set (graph_inputs three_inputs) \<and> state (begin_scan three_inputs) 1 = Some Nonzero \<and>
   2 \<in> set (graph_inputs three_inputs) \<and> state (begin_scan three_inputs) 2 = Some Unknown"
  using C2_seeding [of 0 three_inputs] C2_seeding [of 1 three_inputs]
    C2_seeding [of 2 three_inputs]
  by (simp add: three_inputs_def)

subsection \<open>Notions used in the statements\<close>

text \<open>
  \<open>rewired os bos\<close> sends the \<open>i\<close>-th value of \<open>os\<close> to the \<open>i\<close>-th value of \<open>bos\<close>
  and leaves every other value alone.
\<close>

definition rewired :: "Value list \<Rightarrow> Value list \<Rightarrow> Value \<Rightarrow> Value" where
  "rewired os bos x = (case map_of (zip os bos) x of None \<Rightarrow> x | Some b \<Rightarrow> b)"

text \<open>The identities of a node and of all nodes nested in it.\<close>

primrec node_ids :: "Node \<Rightarrow> nat list" and block_node_ids :: "Block \<Rightarrow> nat list" where
  "node_ids (Node i k ins os bs) = i # concat (map block_node_ids bs)"
| "block_node_ids (Block ns bos) = concat (map node_ids ns)"

definition all_node_ids :: "Node list \<Rightarrow> nat set" where
  "all_node_ids ns = set (concat (map node_ids ns))"

text \<open>
  The shape the kind of a node promises: a \<^verbatim>\<open>GradOf\<close> node has a nested block with an
  output for each output of the node, an \<^verbatim>\<open>AutogradAdd\<close> node has two inputs and one
  output, an \<^verbatim>\<open>AutogradZero\<close> node has one output.
\<close>

definition well_shaped :: "Node \<Rightarrow> bool" where
  "well_shaped n =
     (case kind n of
        GradOf \<Rightarrow> (case blocks n of
                     [] \<Rightarrow> False
                   | body # bs \<Rightarrow> length (outputs n) \<le> length (block_outputs body))
      | AutogradAdd \<Rightarrow> 2 \<le> length (inputs n) \<and> length (outputs n) = 1
      | AutogradZero \<Rightarrow> length (outputs n) = 1
      | aten_add \<Rightarrow> True
      | OtherKind k \<Rightarrow> True)"

subsection \<open>What redirecting uses does\<close>

lemma redirect_sel [simp]:
  "state (redirect f c) = state c"
  "fresh (redirect f c) = fresh c"
  "front (redirect f c) = map (map_uses f) (front c)"
  "rest (redirect f c) = map (map_uses f) (rest c)"
  "outs (redirect f c) = map f (outs c)"
  by (simp_all add: redirect_def)

lemma redirect_comp: "redirect f (redirect g c) = redirect (f \<circ> g) c"
  by (simp add: redirect_def map_uses_comp)

lemma redirect_id: "redirect (\<lambda>x. x) c = c"
  by (simp add: redirect_def map_uses_id map_idI)

lemma fold_replace_redirect:
  "fold (\<lambda>out. replaceAllUsesWith out w) os c = redirect (\<lambda>x. if x \<in> set os then w else x) c"
proof (induction os arbitrary: c)
  case Nil
  show ?case by (simp add: redirect_id)
next
  case (Cons a os)
  have "(\<lambda>x. if x \<in> set os then w else x) \<circ> replaceUse a w = (\<lambda>x. if x \<in> set (a # os) then w else x)"
    by (auto simp: replaceUse_def fun_eq_iff)
  with Cons show ?case
    by (simp add: replaceAllUsesWith_def redirect_comp)
qed

lemma body_outputs_redirect: "body_outputs (redirect f c) = map f (body_outputs c)"
  by (auto simp: body_outputs_def split: list.splits)

lemma map_replaceUse_notin: "v \<notin> set xs \<Longrightarrow> map (replaceUse v w) xs = xs"
  by (induction xs) (auto simp: replaceUse_def)

lemma rewire_effect:
  "i + length os \<le> length (body_outputs c) \<Longrightarrow> set os \<inter> set (body_outputs c) = {} \<Longrightarrow>
   rewire i os c = Inr (redirect (rewired os (drop i (body_outputs c))) c)"
proof (induction os arbitrary: i c)
  case Nil
  have "rewired [] (drop i (body_outputs c)) = (\<lambda>x. x)"
    by (simp add: rewired_def fun_eq_iff)
  then show ?case by (simp add: redirect_id)
next
  case (Cons out os)
  let ?bos = "body_outputs c"
  let ?c1 = "replaceAllUsesWith out (?bos ! i) c"
  from Cons.prems have i: "i < length ?bos" and out: "out \<notin> set ?bos"
    and os: "set os \<inter> set ?bos = {}" by auto
  have bos1: "body_outputs ?c1 = ?bos"
    using out by (simp add: replaceAllUsesWith_def body_outputs_redirect map_replaceUse_notin)
  have "rewire (Suc i) os ?c1 = Inr (redirect (rewired os (drop (Suc i) ?bos)) ?c1)"
    using Cons.IH [of "Suc i" ?c1] Cons.prems os bos1 by simp
  moreover have "rewired os (drop (Suc i) ?bos) \<circ> replaceUse out (?bos ! i) =
      rewired (out # os) (drop i ?bos)"
  proof
    fix x
    have d: "drop i ?bos = ?bos ! i # drop (Suc i) ?bos"
      using i by (simp add: Cons_nth_drop_Suc)
    have "?bos ! i \<notin> set os" using os i by auto
    then have "map_of (zip os (drop (Suc i) ?bos)) (?bos ! i) = None"
      by (auto simp: map_of_eq_None_iff dest: set_zip_leftD)
    then show "(rewired os (drop (Suc i) ?bos) \<circ> replaceUse out (?bos ! i)) x =
      rewired (out # os) (drop i ?bos) x"
      by (simp add: d rewired_def replaceUse_def)
  qed
  ultimately show ?case using i
    by (simp add: replaceAllUsesWith_def redirect_comp)
qed

lemma fold_snoc: "fold (\<lambda>x pre. pre @ [x]) xs ys = ys @ xs"
  by (induction xs arbitrary: ys) auto

lemma node_ids_map_uses [simp]:
  "node_ids (map_uses f n) = node_ids n"
  "block_node_ids (map_uses_block f b) = block_node_ids b"
  by (induction n and b) (auto simp: comp_def cong: map_cong)

lemma all_node_ids_simps [simp]:
  "all_node_ids [] = {}"
  "all_node_ids (n # ns) = set (node_ids n) \<union> all_node_ids ns"
  "all_node_ids (ns @ ms) = all_node_ids ns \<union> all_node_ids ms"
  "all_node_ids (map (map_uses f) ns) = all_node_ids ns"
  by (simp_all add: all_node_ids_def comp_def)

lemma rewire_redirect: "rewire i os c = Inr c' \<Longrightarrow> \<exists>f. c' = redirect f c"
proof (induction i os c rule: rewire.induct)
  case (1 i c)
  then show ?case by (auto intro: exI [of _ "\<lambda>x. x"] simp: redirect_id)
next
  case (2 i out os c)
  then show ?case
    by (auto split: if_splits simp: replaceAllUsesWith_def redirect_comp)
qed

lemma node_ids_drop_body_nodes:
  "blocks n = Block bns bos # bs \<Longrightarrow>
   set (node_ids (drop_body_nodes n)) \<union> all_node_ids bns = set (node_ids n)"
  by (cases n) (auto simp: drop_body_nodes_def all_node_ids_def)

lemma hoist_sel [simp]:
  "state (hoist c) = state c"
  "fresh (hoist c) = fresh c"
  "outs (hoist c) = outs c"
  by (simp_all add: hoist_def split: list.splits)

lemma visit_node_ids:
  assumes "visit c = Inr c'"
  shows "all_node_ids (front c' @ rest c') \<subseteq> all_node_ids (front c @ rest c) \<union> {fresh c} \<and>
         fresh c \<le> fresh c'"
proof (cases "rest c")
  case Nil
  with assms show ?thesis by (auto simp: visit_def)
next
  case (Cons n post)
  show ?thesis
  proof (cases "kind n")
    case GradOf
    show ?thesis
    proof (cases "list_all (\<lambda>v. state_at (state c) v = Zero) (inputs n)")
      case True
      with assms Cons GradOf show ?thesis
        by (auto simp: visit_def visit_GradOf_def Let_def fold_replace_redirect insertAfter_def
            destroyCurrent_def createAutogradZero_def)
    next
      case False
      with assms Cons GradOf obtain body bs c2 where b: "blocks n = body # bs"
        and rw: "rewire 0 (outputs n) (hoist c) = Inr c2" and c': "c' = destroyCurrent c2"
        by (auto simp: visit_def visit_GradOf_def split: list.splits if_splits sum.splits)
      obtain bns bos where body: "body = Block bns bos" by (cases body)
      from rw obtain f where c2: "c2 = redirect f (hoist c)" using rewire_redirect by blast
      have "all_node_ids (front (hoist c) @ rest (hoist c)) = all_node_ids (front c @ rest c)"
        using Cons b body node_ids_drop_body_nodes [of n bns bos bs]
        by (auto simp: hoist_def fold_snoc)
      then show ?thesis using c' c2
        by (cases "rest (hoist c)") (auto simp: destroyCurrent_def)
    qed
  next
    case AutogradAdd
    with assms Cons show ?thesis
      by (auto simp: visit_def visit_AutogradAdd_def Let_def replaceAllUsesWith_def
          insertBefore_def destroyCurrent_def advance_def create_add_def
          split: list.splits if_splits option.splits)
  next
    case AutogradZero
    with assms Cons show ?thesis
      by (auto simp: visit_def visit_AutogradZero_def advance_def split: option.splits)
  next
    case aten_add
    with assms Cons show ?thesis
      by (auto simp: visit_def visit_default_def advance_def)
  next
    case (OtherKind k)
    with assms Cons show ?thesis
      by (auto simp: visit_def visit_default_def advance_def)
  qed
qed

lemma scan_node_ids:
  "scan c = Inr r \<Longrightarrow> x \<notin> all_node_ids (front c @ rest c) \<Longrightarrow> x < fresh c \<Longrightarrow>
   x \<notin> all_node_ids (front r)"
proof (induction c rule: scan.induct)
  case (1 c)
  show ?case
  proof (cases "rest c = []")
    case True
    with "1.prems" show ?thesis by (simp add: scan.simps)
  next
    case False
    with "1.prems" obtain c' where v: "visit c = Inr c'" and s: "scan c' = Inr r"
      by (auto simp: scan.simps [of c] split: sum.splits)
    from visit_node_ids [OF v] "1.prems" have "x \<notin> all_node_ids (front c' @ rest c')" "x < fresh c'"
      by auto
    with "1.IH" [OF False v s] show ?thesis by simp
  qed
qed

lemma well_shaped_map_uses [simp]: "well_shaped (map_uses f n) = well_shaped n"
  by (cases n) (auto simp: well_shaped_def split: NodeKind.splits list.splits)

lemma well_shaped_createAutogradZero [simp]: "well_shaped (createAutogradZero k)"
  by (simp add: well_shaped_def createAutogradZero_def)

lemma rewire_succeeds:
  "i + length os \<le> length (body_outputs c) \<Longrightarrow> \<exists>c'. rewire i os c = Inr c'"
proof (induction os arbitrary: i c)
  case Nil
  show ?case by simp
next
  case (Cons out os)
  let ?c1 = "replaceAllUsesWith out (body_outputs c ! i) c"
  have "length (body_outputs ?c1) = length (body_outputs c)"
    by (simp add: replaceAllUsesWith_def body_outputs_redirect)
  with Cons.prems have "Suc i + length os \<le> length (body_outputs ?c1)" by simp
  from Cons.IH [OF this] Cons.prems show ?case by simp
qed

lemma output_of_Some: "length (outputs n) = 1 \<Longrightarrow> \<exists>out. output_of n = Some out"
  by (cases "outputs n") (auto simp: output_of_def split: list.splits)

lemma visit_fails_iff:
  assumes "rest c = n # post" and "well_shaped n"
  shows "visit c = Inl (e, c') \<longleftrightarrow>
         kind n = GradOf \<and> (\<exists>v \<in> set (inputs n). state_at (state c) v \<noteq> Zero) \<and>
         (\<exists>v \<in> set (inputs n). state_at (state c) v = Unknown) \<and> e = UnknownInput \<and> c' = c"
proof (cases "kind n")
  case GradOf
  with assms(2) obtain body bs where b: "blocks n = body # bs"
    and len: "length (outputs n) \<le> length (block_outputs body)"
    by (auto simp: well_shaped_def split: list.splits)
  have "body_outputs (hoist c) = block_outputs body"
    using assms(1) b by (simp add: body_outputs_def hoist_def drop_body_nodes_def)
  with len rewire_succeeds [of 0 "outputs n" "hoist c"]
  obtain c2 where "rewire 0 (outputs n) (hoist c) = Inr c2" by auto
  with GradOf assms(1) b show ?thesis
    by (auto simp: visit_def visit_GradOf_def list_all_iff list_ex_iff Let_def)
next
  case AutogradAdd
  with assms(2) obtain a b others out where "inputs n = a # b # others" "output_of n = Some out"
    using output_of_Some [of n]
    by (cases "inputs n"; cases "tl (inputs n)") (auto simp: well_shaped_def)
  with AutogradAdd assms(1) show ?thesis
    by (auto simp: visit_def visit_AutogradAdd_def Let_def)
next
  case AutogradZero
  with assms(2) obtain out where "output_of n = Some out"
    using output_of_Some [of n] by (auto simp: well_shaped_def)
  with AutogradZero assms(1) show ?thesis
    by (auto simp: visit_def visit_AutogradZero_def)
next
  case aten_add
  with assms(1) show ?thesis by (auto simp: visit_def visit_default_def)
next
  case (OtherKind k)
  with assms(1) show ?thesis by (auto simp: visit_def visit_default_def)
qed

lemma visit_rest:
  assumes "rest c = n # post" and "visit c = Inr c'"
  shows "\<exists>f. rest c' = map (map_uses f) post \<or>
             rest c' = createAutogradZero (fresh c) # map (map_uses f) post"
proof (cases "kind n")
  case GradOf
  show ?thesis
  proof (cases "list_all (\<lambda>v. state_at (state c) v = Zero) (inputs n)")
    case True
    with assms GradOf show ?thesis
      by (auto simp: visit_def visit_GradOf_def Let_def fold_replace_redirect insertAfter_def
          destroyCurrent_def createAutogradZero_def)
  next
    case False
    with assms GradOf obtain body bs c2 where b: "blocks n = body # bs"
      and rw: "rewire 0 (outputs n) (hoist c) = Inr c2" and c': "c' = destroyCurrent c2"
      by (auto simp: visit_def visit_GradOf_def split: list.splits if_splits sum.splits)
    from rw obtain f where "c2 = redirect f (hoist c)" using rewire_redirect by blast
    with c' assms(1) b show ?thesis
      by (auto simp: destroyCurrent_def hoist_def)
  qed
next
  case AutogradAdd
  have A: "\<exists>g. rest (destroyCurrent (redirect f d)) = map (map_uses g) post"
    if "rest d = n # post" for f d
    using that by (auto simp: destroyCurrent_def)
  have B: "\<exists>g. rest (advance d) = map (map_uses g) post" if "rest d = n # post" for d
    using that by (auto simp: advance_def map_uses_id map_idI intro: exI [of _ "\<lambda>x. x"])
  from assms AutogradAdd have "\<exists>g. rest c' = map (map_uses g) post"
    by (auto simp: visit_def visit_AutogradAdd_def Let_def replaceAllUsesWith_def
        insertBefore_def split: list.splits if_splits option.splits intro!: A B)
  then show ?thesis by blast
next
  case AutogradZero
  with assms have "rest c' = map (map_uses (\<lambda>x. x)) post"
    by (auto simp: visit_def visit_AutogradZero_def advance_def map_uses_id map_idI split: option.splits)
  then show ?thesis by blast
next
  case aten_add
  with assms have "rest c' = map (map_uses (\<lambda>x. x)) post"
    by (auto simp: visit_def visit_default_def advance_def map_uses_id map_idI)
  then show ?thesis by blast
next
  case (OtherKind k)
  with assms have "rest c' = map (map_uses (\<lambda>x. x)) post"
    by (auto simp: visit_def visit_default_def advance_def map_uses_id map_idI)
  then show ?thesis by blast
qed

lemma scan_fails:
  "\<forall>m \<in> set (rest c). well_shaped m \<Longrightarrow> scan c = Inl (e, c') \<Longrightarrow>
   e = UnknownInput \<and> visit c' = Inl (UnknownInput, c') \<and>
   (\<exists>n post. rest c' = n # post \<and> kind n = GradOf \<and>
      (\<exists>v \<in> set (inputs n). state_at (state c') v \<noteq> Zero) \<and>
      (\<exists>v \<in> set (inputs n). state_at (state c') v = Unknown))"
proof (induction c rule: scan.induct)
  case (1 c)
  from "1.prems"(2) obtain n post where r: "rest c = n # post"
    by (cases "rest c") (auto simp: scan.simps [of c])
  with "1.prems"(1) have wn: "well_shaped n" and wp: "\<forall>m \<in> set post. well_shaped m" by auto
  show ?case
  proof (cases "visit c")
    case (Inl x)
    with "1.prems"(2) r have v: "visit c = Inl (e, c')"
      by (simp add: scan.simps [of c])
    with visit_fails_iff [OF r wn, of e c'] r show ?thesis by auto
  next
    case (Inr c1)
    with "1.prems"(2) r have s: "scan c1 = Inl (e, c')"
      by (simp add: scan.simps [of c])
    from visit_rest [OF r Inr] wp have "\<forall>m \<in> set (rest c1). well_shaped m" by auto
    with "1.IH" [OF _ Inr] r s show ?thesis by simp
  qed
qed

subsection \<open>Example scans\<close>

text \<open>
  A classification map holding every state, and a scan whose iterator is at a given node,
  with a node in front of it and a node behind it that reads the values 7 and 8.
\<close>

definition classified :: "Value \<rightharpoonup> State" where
  "classified = [2 \<mapsto> Zero, 3 \<mapsto> Zero, 4 \<mapsto> Nonzero, 5 \<mapsto> Unknown]"

definition reader :: Node where
  "reader = Node 23 (OtherKind 1) [7, 8, 6] [9] []"

definition at_node :: "Node \<Rightarrow> Scan" where
  "at_node n =
     \<lparr>state = classified, front = [Node 20 (OtherKind 0) [4] [6] []],
      rest = [n, reader], outs = [9, 7], fresh = 24\<rparr>"

definition region :: "Value list \<Rightarrow> Node" where
  "region ins = Node 21 GradOf ins [7, 8] [Block [Node 22 (OtherKind 2) [2, 4] [10] []] [10, 4]]"

definition guarded_add :: "Value \<Rightarrow> Value \<Rightarrow> Node" where
  "guarded_add a b = Node 21 AutogradAdd [a, b] [7] []"

definition failing_graph :: Graph where
  "failing_graph =
     \<lparr>graph_inputs = [4, 5],
      value_type = (\<lambda>v. if v = 4 then TensorType None else OtherType False False),
      graph_nodes = [Node 20 (OtherKind 0) [4] [6] [], region [4, 5], reader],
      graph_outputs = [9, 7], next_unique = 24\<rparr>"

lemma classified_at [simp]:
  "state_at classified 2 = Zero" "state_at classified 3 = Zero"
  "state_at classified 4 = Nonzero" "state_at classified 5 = Unknown"
  by (simp_all add: state_at_def classified_def)

subsection \<open>The rewrite rules\<close>

text \<open>
  Claim C3. When the node under the iterator is a \<^verbatim>\<open>GradOf\<close> region all of whose
  inputs are classified \<open>Zero\<close>, the iteration puts exactly one new zero-literal node where
  the region was (it was inserted right after the region, and the region is then deleted, its
  nested block with it), and every use of every output of the region, anywhere in the graph,
  now holds the output of that one node. Node identities are not reused, so if no other node
  has the region's identity, no node of the graph the pass returns has it.
\<close>

theorem C3_zero_region_collapse:
  assumes "rest c = n # post" and "kind n = GradOf"
    and "\<forall>v \<in> set (inputs n). state_at (state c) v = Zero"
  shows "(let zero = fresh c; to_zero = (\<lambda>x. if x \<in> set (outputs n) then zero else x) in
          visit c =
            Inr (c\<lparr>front := map (map_uses to_zero) (front c),
                  rest := createAutogradZero zero # map (map_uses to_zero) post,
                  outs := map to_zero (outs c),
                  fresh := Suc zero\<rparr>)) \<and>
         (node_id n \<notin> all_node_ids (front c @ post) \<and> node_id n < fresh c \<longrightarrow>
          (\<forall>r. scan c = Inr r \<longrightarrow> node_id n \<notin> all_node_ids (front r)))"
proof -
  let ?f = "\<lambda>x. if x \<in> set (outputs n) then fresh c else x"
  let ?c' = "c\<lparr>front := map (map_uses ?f) (front c),
               rest := createAutogradZero (fresh c) # map (map_uses ?f) post,
               outs := map ?f (outs c), fresh := Suc (fresh c)\<rparr>"
  from assms have v: "visit c = Inr ?c'"
    by (simp add: visit_def visit_GradOf_def Let_def fold_replace_redirect insertAfter_def
        destroyCurrent_def createAutogradZero_def redirect_def list_all_iff)
  have "node_id n \<notin> all_node_ids (front r)"
    if gone: "node_id n \<notin> all_node_ids (front c @ post)" and lt: "node_id n < fresh c"
      and r: "scan c = Inr r" for r
  proof -
    from r v assms(1) have "scan ?c' = Inr r"
      by (simp add: scan.simps [of c])
    moreover from gone lt have "node_id n \<notin> all_node_ids (front ?c' @ rest ?c')"
      by (simp add: createAutogradZero_def)
    moreover from lt have "node_id n < fresh ?c'" by simp
    ultimately show ?thesis by (rule scan_node_ids)
  qed
  with v show ?thesis by (simp add: Let_def)
qed

theorem C3_zero_region_collapse_witness:
  "rest (at_node (region [2, 3])) = region [2, 3] # [reader] \<and>
   kind (region [2, 3]) = GradOf \<and>
   inputs (region [2, 3]) = [2, 3] \<and>
   state_at (state (at_node (region [2, 3]))) 2 = Zero \<and>
   state_at (state (at_node (region [2, 3]))) 3 = Zero \<and>
   visit (at_node (region [2, 3])) =
     Inr \<lparr>state = classified, front = [Node 20 (OtherKind 0) [4] [6] []],
          rest = [Node 24 AutogradZero [] [24] [], Node 23 (OtherKind 1) [24, 24, 6] [9] []],
          outs = [9, 24], fresh = 25\<rparr> \<and>
   (\<exists>r. scan (at_node (region [2, 3])) = Inr r \<and> 21 \<notin> all_node_ids (front r))"
proof -
  let ?c = "at_node (region [2, 3])"
  have h1: "rest ?c = region [2, 3] # [reader]" by (simp add: at_node_def)
  have h2: "kind (region [2, 3]) = GradOf" by (simp add: region_def)
  have h3: "\<forall>v \<in> set (inputs (region [2, 3])). state_at (state ?c) v = Zero"
    by (simp add: region_def at_node_def)
  have h4: "node_id (region [2, 3]) \<notin> all_node_ids (front ?c @ [reader]) \<and>
            node_id (region [2, 3]) < fresh ?c"
    by (simp add: region_def at_node_def reader_def)
  have "case scan ?c of Inl e \<Rightarrow> False | Inr r \<Rightarrow> True" by code_simp
  then obtain r where r: "scan ?c = Inr r" by (cases "scan ?c") auto
  from C3_zero_region_collapse [OF h1 h2 h3] h4 r
  have "visit ?c =
     Inr \<lparr>state = classified, front = [Node 20 (OtherKind 0) [4] [6] []],
          rest = [Node 24 AutogradZero [] [24] [], Node 23 (OtherKind 1) [24, 24, 6] [9] []],
          outs = [9, 24], fresh = 25\<rparr>" and "21 \<notin> all_node_ids (front r)"
    by (simp_all add: Let_def at_node_def region_def reader_def createAutogradZero_def)
  moreover have "inputs (region [2, 3]) = [2, 3]" by (simp add: region_def)
  moreover have "state_at (state ?c) 2 = Zero" "state_at (state ?c) 3 = Zero"
    by (simp_all add: at_node_def)
  ultimately show ?thesis using h1 h2 r by blast
qed

text \<open>
  Claim C4. When the node under the iterator is a \<^verbatim>\<open>GradOf\<close> region with an input that
  is not classified \<open>Zero\<close> and no input classified \<open>Unknown\<close>, the iteration moves the nodes
  of the nested block, in their order, to just in front of where the region was, deletes the
  region, and every use of the \<open>i\<close>-th output of the region now holds the \<open>i\<close>-th output of
  the nested block. The region has a nested block with an output for each of its own
  outputs, its outputs are distinct values, and none of them is an output of its own block.
\<close>

theorem C4_live_region_splice:
  assumes "rest c = n # post" and "kind n = GradOf"
    and "\<exists>v \<in> set (inputs n). state_at (state c) v \<noteq> Zero"
    and "\<forall>v \<in> set (inputs n). state_at (state c) v \<noteq> Unknown"
    and "blocks n = body # bs"
    and "length (outputs n) \<le> length (block_outputs body)"
    and "distinct (outputs n)"
    and "set (outputs n) \<inter> set (block_outputs body) = {}"
  shows "(let to_body = rewired (outputs n) (block_outputs body) in
          visit c =
            Inr (c\<lparr>front := map (map_uses to_body) (front c @ block_nodes body),
                  rest := map (map_uses to_body) post,
                  outs := map to_body (outs c)\<rparr>) \<and>
          (\<forall>i < length (outputs n). to_body (outputs n ! i) = block_outputs body ! i) \<and>
          (\<forall>x. x \<notin> set (outputs n) \<longrightarrow> to_body x = x))"
proof -
  let ?f = "rewired (outputs n) (block_outputs body)"
  have bo: "body_outputs (hoist c) = block_outputs body"
    using assms(1,5) by (simp add: body_outputs_def hoist_def drop_body_nodes_def)
  have "rewire 0 (outputs n) (hoist c) = Inr (redirect ?f (hoist c))"
    using rewire_effect [of 0 "outputs n" "hoist c"] assms(6,8) bo by simp
  moreover have "\<not> list_all (\<lambda>v. state_at (state c) v = Zero) (inputs n)"
    using assms(3) by (simp add: list_all_iff)
  moreover have "\<not> list_ex (\<lambda>v. state_at (state c) v = Unknown) (inputs n)"
    using assms(4) by (simp add: list_ex_iff)
  ultimately have v: "visit c =
      Inr (c\<lparr>front := map (map_uses ?f) (front c @ block_nodes body),
            rest := map (map_uses ?f) post, outs := map ?f (outs c)\<rparr>)"
    using assms(1,2,5)
    by (simp add: visit_def visit_GradOf_def destroyCurrent_def redirect_def hoist_def fold_snoc)
  have nth: "?f (outputs n ! i) = block_outputs body ! i" if "i < length (outputs n)" for i
  proof -
    from that assms(6) have "(outputs n ! i, block_outputs body ! i) \<in> set (zip (outputs n) (block_outputs body))"
      by (auto simp: set_zip)
    moreover have "distinct (map fst (zip (outputs n) (block_outputs body)))"
      using assms(6,7) by (simp add: map_fst_zip_take)
    ultimately have "map_of (zip (outputs n) (block_outputs body)) (outputs n ! i) = Some (block_outputs body ! i)"
      by (rule map_of_is_SomeI [rotated])
    then show ?thesis by (simp add: rewired_def)
  qed
  have other: "?f x = x" if "x \<notin> set (outputs n)" for x
  proof -
    from that have "map_of (zip (outputs n) (block_outputs body)) x = None"
      by (auto simp: map_of_eq_None_iff dest: set_zip_leftD)
    then show ?thesis by (simp add: rewired_def)
  qed
  from v nth other show ?thesis by (simp add: Let_def)
qed

theorem C4_live_region_splice_witness:
  "rest (at_node (region [2, 4])) = region [2, 4] # [reader] \<and>
   kind (region [2, 4]) = GradOf \<and>
   inputs (region [2, 4]) = [2, 4] \<and>
   state_at (state (at_node (region [2, 4]))) 2 = Zero \<and>
   state_at (state (at_node (region [2, 4]))) 4 = Nonzero \<and>
   blocks (region [2, 4]) = Block [Node 22 (OtherKind 2) [2, 4] [10] []] [10, 4] # [] \<and>
   visit (at_node (region [2, 4])) =
     Inr \<lparr>state = classified,
          front = [Node 20 (OtherKind 0) [4] [6] [], Node 22 (OtherKind 2) [2, 4] [10] []],
          rest = [Node 23 (OtherKind 1) [10, 4, 6] [9] []],
          outs = [9, 10], fresh = 24\<rparr>"
proof -
  let ?n = "region [2, 4]"
  let ?c = "at_node ?n"
  let ?body = "Block [Node 22 (OtherKind 2) [2, 4] [10] []] [10, 4]"
  have h1: "rest ?c = ?n # [reader]" by (simp add: at_node_def)
  have h2: "kind ?n = GradOf" by (simp add: region_def)
  have h3: "\<exists>v \<in> set (inputs ?n). state_at (state ?c) v \<noteq> Zero"
    by (simp add: region_def at_node_def)
  have h4: "\<forall>v \<in> set (inputs ?n). state_at (state ?c) v \<noteq> Unknown"
    by (simp add: region_def at_node_def)
  have h5: "blocks ?n = ?body # []" by (simp add: region_def)
  have h6: "length (outputs ?n) \<le> length (block_outputs ?body)" by (simp add: region_def)
  have h7: "distinct (outputs ?n)" by (simp add: region_def)
  have h8: "set (outputs ?n) \<inter> set (block_outputs ?body) = {}" by (simp add: region_def)
  from C4_live_region_splice [OF h1 h2 h3 h4 h5 h6 h7 h8]
  have "visit ?c =
     Inr \<lparr>state = classified,
          front = [Node 20 (OtherKind 0) [4] [6] [], Node 22 (OtherKind 2) [2, 4] [10] []],
          rest = [Node 23 (OtherKind 1) [10, 4, 6] [9] []],
          outs = [9, 10], fresh = 24\<rparr>"
    by (simp add: Let_def at_node_def region_def reader_def rewired_def)
  moreover have "inputs ?n = [2, 4]" by (simp add: region_def)
  moreover have "state_at (state ?c) 2 = Zero" "state_at (state ?c) 4 = Nonzero"
    by (simp_all add: at_node_def)
  ultimately show ?thesis using h1 h2 h5 by blast
qed

text \<open>
  Claim C5. On a graph whose nodes have the shape of their kind, the pass fails in one way
  only: the node under the iterator is a \<^verbatim>\<open>GradOf\<close> region, not all of its inputs are
  classified \<open>Zero\<close> and one is classified \<open>Unknown\<close>. The error is the assertion of line
  63, and the iteration that throws it has changed nothing: the scan reported with the
  error is the scan the iteration started from. In that situation the iteration always
  fails, and in no other.
\<close>

theorem C5_one_failure_condition:
  "((\<forall>m \<in> set (graph_nodes g). well_shaped m) \<longrightarrow>
    (\<forall>e c. specializeAutogradZero g = Inl (e, c) \<longrightarrow>
       e = UnknownInput \<and> visit c = Inl (UnknownInput, c) \<and>
       (\<exists>n post. rest c = n # post \<and> kind n = GradOf \<and>
          (\<exists>v \<in> set (inputs n). state_at (state c) v \<noteq> Zero) \<and>
          (\<exists>v \<in> set (inputs n). state_at (state c) v = Unknown)))) \<and>
   (\<forall>c n post e c'. rest c = n # post \<and> well_shaped n \<longrightarrow>
      (visit c = Inl (e, c') \<longleftrightarrow>
         kind n = GradOf \<and> (\<exists>v \<in> set (inputs n). state_at (state c) v \<noteq> Zero) \<and>
         (\<exists>v \<in> set (inputs n). state_at (state c) v = Unknown) \<and> e = UnknownInput \<and> c' = c))"
proof -
  have "e = UnknownInput \<and> visit c = Inl (UnknownInput, c) \<and>
       (\<exists>n post. rest c = n # post \<and> kind n = GradOf \<and>
          (\<exists>v \<in> set (inputs n). state_at (state c) v \<noteq> Zero) \<and>
          (\<exists>v \<in> set (inputs n). state_at (state c) v = Unknown))"
    if w: "\<forall>m \<in> set (graph_nodes g). well_shaped m"
      and f: "specializeAutogradZero g = Inl (e, c)" for e c
  proof -
    from f have "scan (begin_scan g) = Inl (e, c)"
      by (auto simp: specializeAutogradZero_def split: sum.splits)
    moreover from w have "\<forall>m \<in> set (rest (begin_scan g)). well_shaped m"
      by (simp add: begin_scan_def)
    ultimately show ?thesis using scan_fails by blast
  qed
  then show ?thesis using visit_fails_iff by blast
qed

theorem C5_one_failure_condition_witness:
  "list_all well_shaped (graph_nodes failing_graph) \<and>
   (\<exists>c. specializeAutogradZero failing_graph = Inl (UnknownInput, c) \<and>
        visit c = Inl (UnknownInput, c))"
proof -
  have w: "\<forall>m \<in> set (graph_nodes failing_graph). well_shaped m"
    by (simp add: failing_graph_def well_shaped_def region_def reader_def)
  have "case specializeAutogradZero failing_graph of Inl x \<Rightarrow> True | Inr g \<Rightarrow> False"
    by code_simp
  then obtain e c where "specializeAutogradZero failing_graph = Inl (e, c)"
    by (cases "specializeAutogradZero failing_graph") auto
  with C5_one_failure_condition [of failing_graph] w show ?thesis
    unfolding list_all_iff by blast
qed

text \<open>
  Claim C6. For a guarded addition \<open>add(a, b)\<close> under the iterator: if \<open>a\<close> is classified
  \<open>Zero\<close>, every use of the node's output now holds \<open>b\<close> itself and the node is deleted;
  if \<open>a\<close> is not \<open>Zero\<close> and \<open>b\<close> is, every use now holds \<open>a\<close> itself and the node is
  deleted. No node is created (the next unused identity is the same) and no classification
  changes.
\<close>

theorem C6_add_with_zero:
  assumes "rest c = n # post" and "kind n = AutogradAdd"
    and "inputs n = a # b # others" and "outputs n = [out]"
  shows "(state_at (state c) a = Zero \<longrightarrow>
          visit c = Inr (c\<lparr>front := map (map_uses (replaceUse out b)) (front c),
                          rest := map (map_uses (replaceUse out b)) post,
                          outs := map (replaceUse out b) (outs c)\<rparr>)) \<and>
         (state_at (state c) a \<noteq> Zero \<and> state_at (state c) b = Zero \<longrightarrow>
          visit c = Inr (c\<lparr>front := map (map_uses (replaceUse out a)) (front c),
                          rest := map (map_uses (replaceUse out a)) post,
                          outs := map (replaceUse out a) (outs c)\<rparr>))"
  using assms
  by (simp add: visit_def visit_AutogradAdd_def output_of_def replaceAllUsesWith_def
      redirect_def destroyCurrent_def)

theorem C6_add_with_zero_witness:
  "rest (at_node (guarded_add 2 4)) = guarded_add 2 4 # [reader] \<and>
   kind (guarded_add 2 4) = AutogradAdd \<and> inputs (guarded_add 2 4) = 2 # 4 # [] \<and>
   outputs (guarded_add 2 4) = [7] \<and> state_at (state (at_node (guarded_add 2 4))) 2 = Zero \<and>
   visit (at_node (guarded_add 2 4)) =
     Inr \<lparr>state = classified, front = [Node 20 (OtherKind 0) [4] [6] []],
          rest = [Node 23 (OtherKind 1) [4, 8, 6] [9] []], outs = [9, 4], fresh = 24\<rparr> \<and>
   rest (at_node (guarded_add 5 2)) = guarded_add 5 2 # [reader] \<and>
   state_at (state (at_node (guarded_add 5 2))) 5 \<noteq> Zero \<and>
   state_at (state (at_node (guarded_add 5 2))) 2 = Zero \<and>
   visit (at_node (guarded_add 5 2)) =
     Inr \<lparr>state = classified, front = [Node 20 (OtherKind 0) [4] [6] []],
          rest = [Node 23 (OtherKind 1) [5, 8, 6] [9] []], outs = [9, 5], fresh = 24\<rparr>"
proof -
  have k: "kind (guarded_add a b) = AutogradAdd" "inputs (guarded_add a b) = a # b # []"
    "outputs (guarded_add a b) = [7]" "rest (at_node (guarded_add a b)) = guarded_add a b # [reader]"
    for a b by (simp_all add: guarded_add_def at_node_def)
  have z: "state_at (state (at_node (guarded_add 2 4))) 2 = Zero"
    "state_at (state (at_node (guarded_add 5 2))) 5 \<noteq> Zero"
    "state_at (state (at_node (guarded_add 5 2))) 2 = Zero"
    by (simp_all add: at_node_def)
  from C6_add_with_zero [OF k(4) k(1) k(2) k(3), of 2 4] z
  have a: "visit (at_node (guarded_add 2 4)) =
     Inr \<lparr>state = classified, front = [Node 20 (OtherKind 0) [4] [6] []],
          rest = [Node 23 (OtherKind 1) [4, 8, 6] [9] []], outs = [9, 4], fresh = 24\<rparr>"
    by (simp add: at_node_def reader_def replaceUse_def)
  from C6_add_with_zero [OF k(4) k(1) k(2) k(3), of 5 2] z
  have b: "visit (at_node (guarded_add 5 2)) =
     Inr \<lparr>state = classified, front = [Node 20 (OtherKind 0) [4] [6] []],
          rest = [Node 23 (OtherKind 1) [5, 8, 6] [9] []], outs = [9, 5], fresh = 24\<rparr>"
    by (simp add: at_node_def reader_def replaceUse_def)
  from a b k z show ?thesis by blast
qed

text \<open>
  Claim C7. For a guarded addition under the iterator whose operands are both classified
  \<open>Nonzero\<close>, the iteration creates exactly one new node, a plain addition of \<open>a\<close> and
  \<open>b\<close>, just in front of where the guarded addition was, classifies its output
  \<open>Nonzero\<close>, makes every use of the old output hold the new one, and deletes the guarded
  addition. The node does not use its own output.
\<close>

theorem C7_add_of_two_nonzero:
  assumes "rest c = n # post" and "kind n = AutogradAdd"
    and "inputs n = a # b # others" and "outputs n = [out]"
    and "state_at (state c) a = Nonzero" and "state_at (state c) b = Nonzero"
    and "out \<noteq> a" and "out \<noteq> b"
  shows "(let new_add = fresh c in
          visit c =
            Inr (c\<lparr>state := (state c)(new_add \<mapsto> Nonzero),
                  front := map (map_uses (replaceUse out new_add)) (front c) @
                           [Node new_add aten_add [a, b] [new_add] []],
                  rest := map (map_uses (replaceUse out new_add)) post,
                  outs := map (replaceUse out new_add) (outs c),
                  fresh := Suc new_add\<rparr>))"
  using assms
  by (simp add: visit_def visit_AutogradAdd_def output_of_def replaceAllUsesWith_def
      redirect_def destroyCurrent_def insertBefore_def create_add_def Let_def replaceUse_def)

theorem C7_add_of_two_nonzero_witness:
  "rest (at_node (guarded_add 4 4)) = guarded_add 4 4 # [reader] \<and>
   kind (guarded_add 4 4) = AutogradAdd \<and> inputs (guarded_add 4 4) = 4 # 4 # [] \<and>
   outputs (guarded_add 4 4) = [7] \<and>
   state_at (state (at_node (guarded_add 4 4))) 4 = Nonzero \<and> (7::nat) \<noteq> 4 \<and>
   visit (at_node (guarded_add 4 4)) =
     Inr \<lparr>state = classified(24 \<mapsto> Nonzero),
          front = [Node 20 (OtherKind 0) [4] [6] [], Node 24 aten_add [4, 4] [24] []],
          rest = [Node 23 (OtherKind 1) [24, 8, 6] [9] []], outs = [9, 24], fresh = 25\<rparr>"
proof -
  let ?n = "guarded_add 4 4"
  have h1: "rest (at_node ?n) = ?n # [reader]" by (simp add: at_node_def)
  have h2: "kind ?n = AutogradAdd" by (simp add: guarded_add_def)
  have h3: "inputs ?n = 4 # 4 # []" by (simp add: guarded_add_def)
  have h4: "outputs ?n = [7]" by (simp add: guarded_add_def)
  have h5: "state_at (state (at_node ?n)) 4 = Nonzero" by (simp add: at_node_def)
  have h6: "(7::nat) \<noteq> 4" by simp
  from C7_add_of_two_nonzero [OF h1 h2 h3 h4 h5 h5 h6 h6]
  have "visit (at_node ?n) =
     Inr \<lparr>state = classified(24 \<mapsto> Nonzero),
          front = [Node 20 (OtherKind 0) [4] [6] [], Node 24 aten_add [4, 4] [24] []],
          rest = [Node 23 (OtherKind 1) [24, 8, 6] [9] []], outs = [9, 24], fresh = 25\<rparr>"
    by (simp add: Let_def at_node_def reader_def replaceUse_def)
  with h1 h2 h3 h4 h5 h6 show ?thesis by blast
qed

text \<open>
  Claim C8. For a guarded addition under the iterator with neither operand classified
  \<open>Zero\<close> and an operand not classified \<open>Nonzero\<close>, the iteration leaves the graph as it
  is (the node itself stays, no use is redirected, no node is created) and classifies the
  node's output \<open>Unknown\<close>; the iterator moves past the node.
\<close>

theorem C8_add_left_in_place:
  assumes "rest c = n # post" and "kind n = AutogradAdd"
    and "inputs n = a # b # others" and "outputs n = [out]"
    and "state_at (state c) a \<noteq> Zero" and "state_at (state c) b \<noteq> Zero"
    and "state_at (state c) a \<noteq> Nonzero \<or> state_at (state c) b \<noteq> Nonzero"
  shows "visit c = Inr (c\<lparr>state := (state c)(out \<mapsto> Unknown), front := front c @ [n], rest := post\<rparr>)"
  using assms
  by (auto simp add: visit_def visit_AutogradAdd_def output_of_def advance_def)

theorem C8_add_left_in_place_witness:
  "rest (at_node (guarded_add 4 5)) = guarded_add 4 5 # [reader] \<and>
   kind (guarded_add 4 5) = AutogradAdd \<and> inputs (guarded_add 4 5) = 4 # 5 # [] \<and>
   outputs (guarded_add 4 5) = [7] \<and>
   state_at (state (at_node (guarded_add 4 5))) 4 \<noteq> Zero \<and>
   state_at (state (at_node (guarded_add 4 5))) 5 \<noteq> Zero \<and>
   state_at (state (at_node (guarded_add 4 5))) 5 \<noteq> Nonzero \<and>
   visit (at_node (guarded_add 4 5)) =
     Inr \<lparr>state = classified(7 \<mapsto> Unknown),
          front = [Node 20 (OtherKind 0) [4] [6] [], guarded_add 4 5],
          rest = [reader], outs = [9, 7], fresh = 24\<rparr>"
proof -
  let ?n = "guarded_add 4 5"
  have h1: "rest (at_node ?n) = ?n # [reader]" by (simp add: at_node_def)
  have h2: "kind ?n = AutogradAdd" by (simp add: guarded_add_def)
  have h3: "inputs ?n = 4 # 5 # []" by (simp add: guarded_add_def)
  have h4: "outputs ?n = [7]" by (simp add: guarded_add_def)
  have h5: "state_at (state (at_node ?n)) 4 \<noteq> Zero" by (simp add: at_node_def)
  have h6: "state_at (state (at_node ?n)) 5 \<noteq> Zero" by (simp add: at_node_def)
  have h7: "state_at (state (at_node ?n)) 5 \<noteq> Nonzero" by (simp add: at_node_def)
  from C8_add_left_in_place [OF h1 h2 h3 h4 h5 h6 disjI2 [OF h7]]
  have "visit (at_node ?n) =
     Inr \<lparr>state = classified(7 \<mapsto> Unknown),
          front = [Node 20 (OtherKind 0) [4] [6] [], guarded_add 4 5],
          rest = [reader], outs = [9, 7], fresh = 24\<rparr>"
    by (simp add: at_node_def)
  with h1 h2 h3 h4 h5 h6 h7 show ?thesis by blast
qed

text \<open>
  Claim C10. A \<^verbatim>\<open>GradOf\<close> region with no input passes the all-zero test, whatever the
  classification map holds: the iteration succeeds (no assertion), replaces the region by one
  new zero-literal node and redirects the region's outputs to it; nothing is spliced.
\<close>

theorem C10_empty_region:
  "rest c = n # post \<Longrightarrow> kind n = GradOf \<Longrightarrow> inputs n = [] \<Longrightarrow>
   visit c =
     Inr (c\<lparr>front := map (map_uses (\<lambda>x. if x \<in> set (outputs n) then fresh c else x)) (front c),
           rest := createAutogradZero (fresh c) #
                   map (map_uses (\<lambda>x. if x \<in> set (outputs n) then fresh c else x)) post,
           outs := map (\<lambda>x. if x \<in> set (outputs n) then fresh c else x) (outs c),
           fresh := Suc (fresh c)\<rparr>)"
  by (simp add: visit_def visit_GradOf_def Let_def fold_replace_redirect insertAfter_def
      destroyCurrent_def createAutogradZero_def redirect_def)

theorem C10_empty_region_witness:
  "rest (at_node (region [])) = region [] # [reader] \<and> kind (region []) = GradOf \<and>
   inputs (region []) = [] \<and>
   visit (at_node (region [])) =
     Inr \<lparr>state = classified, front = [Node 20 (OtherKind 0) [4] [6] []],
          rest = [Node 24 AutogradZero [] [24] [], Node 23 (OtherKind 1) [24, 24, 6] [9] []],
          outs = [9, 24], fresh = 25\<rparr>"
proof -
  have h1: "rest (at_node (region [])) = region [] # [reader]" by (simp add: at_node_def)
  have h2: "kind (region []) = GradOf" by (simp add: region_def)
  have h3: "inputs (region []) = []" by (simp add: region_def)
  from C10_empty_region [OF h1 h2 h3]
  have "visit (at_node (region [])) =
     Inr \<lparr>state = classified, front = [Node 20 (OtherKind 0) [4] [6] []],
          rest = [Node 24 AutogradZero [] [24] [], Node 23 (OtherKind 1) [24, 24, 6] [9] []],
          outs = [9, 24], fresh = 25\<rparr>"
    by (simp add: at_node_def region_def reader_def createAutogradZero_def)
  with h1 h2 h3 show ?thesis by blast
qed

subsection \<open>Running the pass twice\<close>

text \<open>
  The uses of a node that the scan itself sees: its inputs and the outputs of its first
  nested block (\<open>top_uses\<close>). \<open>with_bodies\<close> lists the nodes of the
  primary block with the nodes of each region's nested block in front of the region, where a
  splice puts them. A list of nodes is in definition order when no node uses an output of
  itself or of a later node; \<open>values_below k\<close> says that \<open>k\<close> and the identities after
  it are unused.
\<close>

definition first_block_outputs :: "Node \<Rightarrow> Value list" where
  "first_block_outputs n = (case blocks n of [] \<Rightarrow> [] | body # bs \<Rightarrow> block_outputs body)"

definition top_uses :: "Node \<Rightarrow> Value list" where
  "top_uses n = inputs n @ first_block_outputs n"

definition body_nodes :: "Node \<Rightarrow> Node list" where
  "body_nodes n = (case blocks n of [] \<Rightarrow> [] | body # bs \<Rightarrow> block_nodes body)"

fun with_bodies :: "Node list \<Rightarrow> Node list" where
  "with_bodies [] = []"
| "with_bodies (n # ns) = (if kind n = GradOf then body_nodes n else []) @ n # with_bodies ns"

fun in_definition_order :: "Node list \<Rightarrow> bool" where
  "in_definition_order [] = True"
| "in_definition_order (n # ns) =
     (list_all (\<lambda>v. v \<notin> set (concat (map outputs (n # ns)))) (top_uses n) \<and>
      in_definition_order ns)"

definition values_below :: "nat \<Rightarrow> Node list \<Rightarrow> bool" where
  "values_below k ns = list_all (\<lambda>n. list_all (\<lambda>v. v < k) (top_uses n @ outputs n)) ns"

text \<open>
  \<open>spliced c\<close> are the nodes that the iteration at the node under the iterator moves out of
  a nested block: those of the body of a region with an input not classified \<open>Zero\<close> and no
  input classified \<open>Unknown\<close>. \<open>splices_only P c\<close>: every node that an iteration of the
  scan splices, from \<open>c\<close> on, satisfies \<open>P\<close>. A node is plain when the scan does no more
  than classify its outputs \<open>Unknown\<close>.
\<close>

definition spliced :: "Scan \<Rightarrow> Node list" where
  "spliced c =
     (case rest c of
        [] \<Rightarrow> []
      | n # post \<Rightarrow>
          if kind n = GradOf \<and> \<not> list_all (\<lambda>v. state_at (state c) v = Zero) (inputs n) \<and>
             \<not> list_ex (\<lambda>input. state_at (state c) input = Unknown) (inputs n)
          then body_nodes n else [])"

function splices_only :: "(Node \<Rightarrow> bool) \<Rightarrow> Scan \<Rightarrow> bool" where
  "splices_only P c =
     (if rest c = [] then True
      else list_all P (spliced c) \<and>
           (case visit c of Inl e \<Rightarrow> True | Inr c' \<Rightarrow> splices_only P c'))"
  by pat_completeness auto
termination
  by (relation "measure (\<lambda>(P, c). todo c)") (auto simp: visit_decreases)

declare splices_only.simps [simp del]

definition plain :: "Node \<Rightarrow> bool" where
  "plain n =
     (case kind n of
        GradOf \<Rightarrow> False
      | AutogradAdd \<Rightarrow> False
      | AutogradZero \<Rightarrow> False
      | aten_add \<Rightarrow> True
      | OtherKind k \<Rightarrow> True)"

text \<open>
  A region whose nested block holds a guarded addition of a \<open>Nonzero\<close> input to itself; a
  graph on which the pass drops, replaces and keeps a guarded addition, collapses a region
  and removes a region whose nested block holds no node; and that graph with a region whose
  body, a plain node, is spliced.
\<close>

definition region_with_add :: Graph where
  "region_with_add =
     \<lparr>graph_inputs = [4], value_type = (\<lambda>v. TensorType None),
      graph_nodes = [Node 21 GradOf [4] [7] [Block [Node 22 AutogradAdd [4, 4] [10] []] [10]]],
      graph_outputs = [7], next_unique = 24\<rparr>"

definition idem_graph :: Graph where
  "idem_graph =
     \<lparr>graph_inputs = [2, 4, 5],
      value_type = (\<lambda>v. if v = 2 then TensorType (Some True)
                         else if v = 4 then TensorType None else OtherType False False),
      graph_nodes =
        [Node 20 AutogradAdd [2, 4] [6] [],
         Node 21 AutogradAdd [6, 4] [7] [],
         Node 22 AutogradAdd [7, 5] [8] [],
         Node 23 GradOf [2] [9] [Block [Node 24 (OtherKind 0) [2] [10] []] [10]],
         Node 25 GradOf [4] [11] [Block [] [8]],
         Node 26 (OtherKind 1) [9, 11] [12] []],
      graph_outputs = [12, 7], next_unique = 30\<rparr>"

definition replay_graph :: Graph where
  "replay_graph =
     \<lparr>graph_inputs = [2, 4, 5],
      value_type = (\<lambda>v. if v = 2 then TensorType (Some True)
                         else if v = 4 then TensorType None else OtherType False False),
      graph_nodes =
        [Node 20 AutogradAdd [2, 4] [6] [],
         Node 21 AutogradAdd [6, 4] [7] [],
         Node 22 AutogradAdd [7, 5] [8] [],
         Node 23 GradOf [2] [9] [Block [Node 24 (OtherKind 0) [2] [10] []] [10]],
         Node 25 GradOf [4] [11] [Block [Node 27 (OtherKind 2) [4, 8] [13] []] [13]],
         Node 26 AutogradAdd [11, 5] [12] [],
         Node 28 (OtherKind 1) [9, 12] [14] []],
      graph_outputs = [14, 7], next_unique = 30\<rparr>"

text \<open>
  Claim C9, as stated, does not hold. The first run on \<open>region_with_add\<close> splices the
  guarded addition out of the region and does not visit it; the second run visits it and
  replaces it by a plain addition.
\<close>

theorem C9_counterexample:
  "case specializeAutogradZero region_with_add of
     Inl e \<Rightarrow> False
   | Inr once \<Rightarrow>
       graph_nodes once = [Node 22 AutogradAdd [4, 4] [10] []] \<and>
       (case specializeAutogradZero once of
          Inl e \<Rightarrow> False
        | Inr twice \<Rightarrow> graph_nodes twice = [Node 24 aten_add [4, 4] [24] []] \<and>
                       graph_nodes twice \<noteq> graph_nodes once)"
  by code_simp

text \<open>
  \<open>quiet st ns\<close> is the classification map after a scan of \<open>ns\<close> from \<open>st\<close> in which
  every iteration keeps its node, and \<open>None\<close> when an iteration would rewrite.
\<close>

fun quiet :: "(Value \<rightharpoonup> State) \<Rightarrow> Node list \<Rightarrow> (Value \<rightharpoonup> State) option" where
  "quiet st [] = Some st"
| "quiet st (n # ns) =
     (case kind n of
        GradOf \<Rightarrow> None
      | AutogradAdd \<Rightarrow>
          (case inputs n of
             a # b # _ \<Rightarrow>
               if state_at st a \<noteq> Zero \<and> state_at st b \<noteq> Zero \<and>
                  \<not> (state_at st a = Nonzero \<and> state_at st b = Nonzero)
               then (case output_of n of
                       None \<Rightarrow> None
                     | Some out \<Rightarrow> quiet (st(out \<mapsto> Unknown)) ns)
               else None
           | _ \<Rightarrow> None)
      | AutogradZero \<Rightarrow>
          (case output_of n of None \<Rightarrow> None | Some out \<Rightarrow> quiet (st(out \<mapsto> Zero)) ns)
      | aten_add \<Rightarrow> quiet (fold (\<lambda>out st. st(out \<mapsto> Unknown)) (outputs n) st) ns
      | OtherKind k \<Rightarrow> quiet (fold (\<lambda>out st. st(out \<mapsto> Unknown)) (outputs n) st) ns)"

lemma quiet_visit:
  assumes "rest c = n # ns" and "quiet (state c) (n # ns) = Some st'"
  shows "\<exists>st1. visit c = Inr (c\<lparr>state := st1, front := front c @ [n], rest := ns\<rparr>) \<and>
               quiet st1 ns = Some st'"
  using assms
  by (auto simp: visit_def visit_AutogradAdd_def visit_AutogradZero_def visit_default_def
      advance_def split: NodeKind.splits list.splits if_splits option.splits)

lemma quiet_scan:
  "rest c = ns \<Longrightarrow> quiet (state c) ns = Some st' \<Longrightarrow>
   scan c = Inr (c\<lparr>state := st', front := front c @ ns, rest := []\<rparr>)"
proof (induction ns arbitrary: c)
  case Nil
  then show ?case by (simp add: scan.simps [of c])
next
  case (Cons n ns)
  from quiet_visit [OF Cons.prems] obtain st1
    where v: "visit c = Inr (c\<lparr>state := st1, front := front c @ [n], rest := ns\<rparr>)"
      and q: "quiet st1 ns = Some st'" by blast
  let ?c1 = "c\<lparr>state := st1, front := front c @ [n], rest := ns\<rparr>"
  have "scan ?c1 = Inr (?c1\<lparr>state := st', front := front ?c1 @ ns, rest := []\<rparr>)"
    using Cons.IH [of ?c1] q by simp
  with v Cons.prems(1) show ?case by (simp add: scan.simps [of c])
qed

lemma quiet_append:
  "quiet st (xs @ ys) = (case quiet st xs of None \<Rightarrow> None | Some st1 \<Rightarrow> quiet st1 ys)"
  by (induction xs arbitrary: st)
    (auto split: NodeKind.splits list.splits option.splits)

definition uses_of :: "Node list \<Rightarrow> Value set" where
  "uses_of ns = (\<Union>n \<in> set ns. set (top_uses n))"

definition outputs_of :: "Node list \<Rightarrow> Value set" where
  "outputs_of ns = (\<Union>n \<in> set ns. set (outputs n))"

lemma uses_of_simps [simp]:
  "uses_of [] = {}"
  "uses_of (n # ns) = set (top_uses n) \<union> uses_of ns"
  "uses_of (xs @ ys) = uses_of xs \<union> uses_of ys"
  by (auto simp: uses_of_def)

lemma outputs_of_simps [simp]:
  "outputs_of [] = {}"
  "outputs_of (n # ns) = set (outputs n) \<union> outputs_of ns"
  "outputs_of (xs @ ys) = outputs_of xs \<union> outputs_of ys"
  "outputs_of (map (map_uses f) ns) = outputs_of ns"
  by (auto simp: outputs_of_def)

lemma top_uses_map_uses [simp]: "top_uses (map_uses f n) = map f (top_uses n)"
  by (cases n) (auto simp: top_uses_def first_block_outputs_def split: list.splits)

lemma uses_of_map_uses [simp]: "uses_of (map (map_uses f) ns) = f ` uses_of ns"
  by (induction ns) auto

lemma in_definition_order_Cons:
  "in_definition_order (n # ns) \<longleftrightarrow>
   set (top_uses n) \<inter> (set (outputs n) \<union> outputs_of ns) = {} \<and> in_definition_order ns"
  by (auto simp: list_all_iff outputs_of_def)

lemma in_definition_order_append:
  "in_definition_order (xs @ ys) \<longleftrightarrow>
   in_definition_order xs \<and> in_definition_order ys \<and> uses_of xs \<inter> outputs_of ys = {}"
  by (induction xs) (auto simp: in_definition_order_Cons simp del: in_definition_order.simps(2))

lemma values_below_iff:
  "values_below k ns \<longleftrightarrow> (\<forall>v \<in> uses_of ns \<union> outputs_of ns. v < k)"
  by (auto simp: values_below_def list_all_iff uses_of_def outputs_of_def)

lemma in_definition_order_redirect:
  assumes "in_definition_order ys"
    and "\<forall>v \<in> uses_of ys. f v = v \<or> f v \<in> W" and "W \<inter> outputs_of ys = {}"
  shows "in_definition_order (map (map_uses f) ys)"
  using assms
proof (induction ys)
  case Nil
  show ?case by simp
next
  case (Cons n ys)
  from Cons.prems(1) have ord: "in_definition_order ys"
    and dis: "set (top_uses n) \<inter> (set (outputs n) \<union> outputs_of ys) = {}"
    by (simp_all add: in_definition_order_Cons del: in_definition_order.simps)
  from Cons.prems(2) have f: "\<forall>v \<in> uses_of ys. f v = v \<or> f v \<in> W"
    and fn: "\<forall>v \<in> set (top_uses n). f v = v \<or> f v \<in> W"
    unfolding uses_of_simps by blast+
  from Cons.prems(3) have W: "W \<inter> outputs_of ys = {}" "W \<inter> set (outputs n) = {}"
    unfolding outputs_of_simps by blast+
  have "in_definition_order (map (map_uses f) ys)"
    using ord f W(1) by (rule Cons.IH)
  moreover have "f ` set (top_uses n) \<inter> (set (outputs n) \<union> outputs_of ys) = {}"
  proof -
    have False if "v \<in> set (top_uses n)" "f v \<in> set (outputs n) \<union> outputs_of ys" for v
    proof -
      from fn that(1) have "f v = v \<or> f v \<in> W" by (rule bspec)
      then show False
      proof
        assume "f v = v"
        with that(2) have "v \<in> set (outputs n) \<union> outputs_of ys" by simp
        with that(1) dis show False by blast
      next
        assume "f v \<in> W"
        with that(2) W show False by blast
      qed
    qed
    then show ?thesis by blast
  qed
  ultimately show ?case
    by (simp add: in_definition_order_Cons del: in_definition_order.simps)
qed

lemma output_of_map_uses [simp]: "output_of (map_uses f n) = output_of n"
  by (simp add: output_of_def)

lemma quiet_redirect:
  "\<forall>v \<in> uses_of xs. f v = v \<Longrightarrow> quiet st (map (map_uses f) xs) = quiet st xs"
proof (induction xs arbitrary: st)
  case Nil
  show ?case by simp
next
  case (Cons n xs)
  then have "map f (inputs n) = inputs n"
    by (auto simp: top_uses_def intro: map_idI)
  moreover from Cons have "quiet st' (map (map_uses f) xs) = quiet st' xs" for st'
    by simp
  ultimately show ?case
    by (cases "kind n") (simp_all split: list.splits option.splits)
qed

definition no_more_known :: "(Value \<rightharpoonup> State) \<Rightarrow> (Value \<rightharpoonup> State) \<Rightarrow> bool" where
  "no_more_known st st2 \<longleftrightarrow>
     (\<forall>v. (state_at st2 v = Zero \<longrightarrow> state_at st v = Zero) \<and>
          (state_at st v = Unknown \<longrightarrow> state_at st2 v = Unknown))"

lemma no_more_known_refl: "no_more_known st st"
  by (simp add: no_more_known_def)

lemma no_more_known_upd:
  "no_more_known st st2 \<Longrightarrow> no_more_known (st(v \<mapsto> s)) (st2(v \<mapsto> s))"
  by (simp add: no_more_known_def state_at_def)

lemma no_more_known_fold:
  "no_more_known st st2 \<Longrightarrow>
   no_more_known (fold (\<lambda>out st. st(out \<mapsto> s)) os st) (fold (\<lambda>out st. st(out \<mapsto> s)) os st2)"
  by (induction os arbitrary: st st2) (simp_all add: no_more_known_upd)

lemma no_more_known_plain_add:
  "no_more_known st st2 \<Longrightarrow> no_more_known (st(k \<mapsto> Nonzero)) (st2(k \<mapsto> Unknown))"
  by (simp add: no_more_known_def state_at_def)

lemma no_more_known_forget:
  "no_more_known st st2 \<Longrightarrow> no_more_known st (fold (\<lambda>out st. st(out \<mapsto> Unknown)) os st2)"
proof (induction os arbitrary: st2)
  case Nil
  then show ?case by simp
next
  case (Cons out os)
  from Cons.prems have "no_more_known st (st2(out \<mapsto> Unknown))"
    by (simp add: no_more_known_def state_at_def)
  from Cons.IH [OF this] show ?case by simp
qed

lemma quiet_plain:
  "list_all plain ms \<Longrightarrow> no_more_known st st2 \<Longrightarrow>
   \<exists>st2'. quiet st2 ms = Some st2' \<and> no_more_known st st2'"
proof (induction ms arbitrary: st2)
  case Nil
  then show ?case by simp
next
  case (Cons m ms)
  let ?st = "fold (\<lambda>out st. st(out \<mapsto> Unknown)) (outputs m) st2"
  from Cons.prems(1) have m: "plain m" and ms: "list_all plain ms" by simp_all
  from Cons.prems(2) have "no_more_known st ?st" by (rule no_more_known_forget)
  from Cons.IH [OF ms this] obtain st2' where "quiet ?st ms = Some st2'" "no_more_known st st2'"
    by blast
  moreover from m have "quiet st2 (m # ms) = quiet ?st ms"
    by (cases "kind m") (simp_all add: plain_def)
  ultimately show ?case by simp
qed

lemma body_nodes_map_uses [simp]:
  "body_nodes (map_uses f n) = map (map_uses f) (body_nodes n)"
  by (cases n) (auto simp: body_nodes_def split: list.splits)

lemma with_bodies_map_uses:
  "with_bodies (map (map_uses f) ns) = map (map_uses f) (with_bodies ns)"
  by (induction ns) simp_all

lemma in_definition_order_drop_mid:
  "in_definition_order (xs @ mid @ ys) \<Longrightarrow> in_definition_order (xs @ ys)"
  by (auto simp: in_definition_order_append)

lemma values_below_drop_mid: "values_below k (xs @ mid @ ys) \<Longrightarrow> values_below k (xs @ ys)"
  by (auto simp: values_below_iff)

definition scan_inv :: "(Value \<rightharpoonup> State) \<Rightarrow> Scan \<Rightarrow> bool" where
  "scan_inv s0 c \<longleftrightarrow>
     (\<forall>m \<in> set (front c). kind m \<noteq> GradOf) \<and>
     in_definition_order (front c @ with_bodies (rest c)) \<and>
     values_below (fresh c) (front c @ with_bodies (rest c)) \<and>
     (\<exists>st2. quiet s0 (front c) = Some st2 \<and> no_more_known (state c) st2)"

lemma redirect_front:
  assumes "in_definition_order (xs @ n # post)" and "\<forall>x. x \<notin> set (outputs n) \<longrightarrow> f x = x"
  shows "quiet s0 (map (map_uses f) xs) = quiet s0 xs"
    and "uses_of (map (map_uses f) xs) = uses_of xs"
    and "in_definition_order (map (map_uses f) xs)"
proof -
  from assms(1) have dis: "uses_of xs \<inter> set (outputs n) = {}" and ord: "in_definition_order xs"
    by (auto simp: in_definition_order_append)
  with assms(2) have fixed: "\<forall>v \<in> uses_of xs. f v = v" by blast
  then show "quiet s0 (map (map_uses f) xs) = quiet s0 xs" by (rule quiet_redirect)
  from fixed show "uses_of (map (map_uses f) xs) = uses_of xs" by simp
  from fixed have "\<forall>v \<in> uses_of xs. f v = v \<or> f v \<in> {}" by blast
  with ord show "in_definition_order (map (map_uses f) xs)"
    by (rule in_definition_order_redirect) simp
qed

lemma redirect_post:
  assumes "in_definition_order (n # post)" and "\<forall>x. f x = x \<or> f x \<in> W"
    and "W \<inter> outputs_of post = {}"
  shows "in_definition_order (map (map_uses f) post)"
    and "uses_of (map (map_uses f) post) \<subseteq> uses_of post \<union> W"
proof -
  from assms(1) have ord: "in_definition_order post" by simp
  from assms(2) have "\<forall>v \<in> uses_of post. f v = v \<or> f v \<in> W" by blast
  with ord show "in_definition_order (map (map_uses f) post)"
    using assms(3) by (rule in_definition_order_redirect)
  show "uses_of (map (map_uses f) post) \<subseteq> uses_of post \<union> W"
  proof
    fix y assume "y \<in> uses_of (map (map_uses f) post)"
    then obtain v where v: "v \<in> uses_of post" and y: "y = f v" by auto
    from assms(2) have "f v = v \<or> f v \<in> W" by (rule spec)
    then show "y \<in> uses_of post \<union> W"
    proof
      assume "f v = v"
      with v y show ?thesis by simp
    next
      assume "f v \<in> W"
      with y show ?thesis by simp
    qed
  qed
qed

lemma lists_destroy:
  assumes ord: "in_definition_order (xs @ n # P)" and below: "values_below k (xs @ n # P)"
    and fixed: "\<forall>x. x \<notin> set (outputs n) \<longrightarrow> f x = x"
    and rng: "\<forall>x. f x = x \<or> f x \<in> set (top_uses n)"
  shows "in_definition_order (map (map_uses f) xs @ map (map_uses f) P)"
    and "values_below k (map (map_uses f) xs @ map (map_uses f) P)"
    and "quiet s0 (map (map_uses f) xs) = quiet s0 xs"
proof -
  note fr = redirect_front [OF ord fixed]
  from ord have ordn: "in_definition_order (n # P)"
    and dis: "uses_of xs \<inter> outputs_of P = {}"
    and W: "set (top_uses n) \<inter> outputs_of P = {}"
    by (auto simp: in_definition_order_append in_definition_order_Cons
        simp del: in_definition_order.simps)
  note po = redirect_post [OF ordn rng W]
  show "in_definition_order (map (map_uses f) xs @ map (map_uses f) P)"
    using fr(2,3) po(1) dis by (simp add: in_definition_order_append)
  show "values_below k (map (map_uses f) xs @ map (map_uses f) P)"
    using below fr(2) po(2) unfolding values_below_iff
    by (simp only: uses_of_simps outputs_of_simps) blast
  show "quiet s0 (map (map_uses f) xs) = quiet s0 xs" by (rule fr(1))
qed

lemma lists_zero:
  assumes ord: "in_definition_order (xs @ n # P)" and below: "values_below k (xs @ n # P)"
    and fixed: "\<forall>x. x \<notin> set (outputs n) \<longrightarrow> f x = x"
    and rng: "\<forall>x. f x = x \<or> f x \<in> {k}"
  shows "in_definition_order (map (map_uses f) xs @ createAutogradZero k # map (map_uses f) P)"
    and "values_below (Suc k) (map (map_uses f) xs @ createAutogradZero k # map (map_uses f) P)"
    and "quiet s0 (map (map_uses f) xs) = quiet s0 xs"
proof -
  note fr = redirect_front [OF ord fixed]
  from ord have ordn: "in_definition_order (n # P)"
    and dis: "uses_of xs \<inter> outputs_of P = {}"
    by (auto simp: in_definition_order_append in_definition_order_Cons
        simp del: in_definition_order.simps)
  from below have k: "\<forall>v \<in> uses_of xs \<union> uses_of P \<union> outputs_of xs \<union> outputs_of P. v < k"
    unfolding values_below_iff by (simp only: uses_of_simps outputs_of_simps) blast
  then have W: "{k} \<inter> outputs_of P = {}" by auto
  note po = redirect_post [OF ordn rng W]
  have z: "top_uses (createAutogradZero k) = []" "outputs (createAutogradZero k) = [k]"
    by (simp_all add: createAutogradZero_def top_uses_def first_block_outputs_def)
  show "in_definition_order (map (map_uses f) xs @ createAutogradZero k # map (map_uses f) P)"
    using fr(2,3) po(1) dis k z
    by (auto simp: in_definition_order_append in_definition_order_Cons
        simp del: in_definition_order.simps)
  show "values_below (Suc k) (map (map_uses f) xs @ createAutogradZero k # map (map_uses f) P)"
    using k fr(2) po(2) z unfolding values_below_iff
    by (simp only: uses_of_simps outputs_of_simps) (auto simp: less_Suc_eq)
  show "quiet s0 (map (map_uses f) xs) = quiet s0 xs" by (rule fr(1))
qed

lemma lists_plain_add:
  assumes ord: "in_definition_order (xs @ n # P)" and below: "values_below k (xs @ n # P)"
    and ins: "inputs n = a # b # others"
    and fixed: "\<forall>x. x \<notin> set (outputs n) \<longrightarrow> f x = x"
    and rng: "\<forall>x. f x = x \<or> f x \<in> {k}"
  shows "in_definition_order ((map (map_uses f) xs @ [create_add k a b]) @ map (map_uses f) P)"
    and "values_below (Suc k) ((map (map_uses f) xs @ [create_add k a b]) @ map (map_uses f) P)"
    and "quiet s0 (map (map_uses f) xs) = quiet s0 xs"
proof -
  let ?add = "create_add k a b"
  note fr = redirect_front [OF ord fixed]
  from ord have ordn: "in_definition_order (n # P)"
    and dis: "uses_of xs \<inter> outputs_of P = {}"
    and usen: "set (top_uses n) \<inter> outputs_of P = {}"
    by (auto simp: in_definition_order_append in_definition_order_Cons
        simp del: in_definition_order.simps)
  from below have k: "\<forall>v \<in> uses_of xs \<union> set (top_uses n) \<union> uses_of P \<union>
      outputs_of xs \<union> outputs_of P. v < k"
    unfolding values_below_iff by (simp only: uses_of_simps outputs_of_simps) blast
  then have W: "{k} \<inter> outputs_of P = {}" by auto
  note po = redirect_post [OF ordn rng W]
  have ab: "a \<in> set (top_uses n)" "b \<in> set (top_uses n)"
    using ins by (simp_all add: top_uses_def)
  have add: "top_uses ?add = [a, b]" "outputs ?add = [k]"
    by (simp_all add: create_add_def top_uses_def first_block_outputs_def)
  show "in_definition_order ((map (map_uses f) xs @ [?add]) @ map (map_uses f) P)"
    using fr(2,3) po(1) dis k add ab usen
    by (auto simp: in_definition_order_append in_definition_order_Cons
        simp del: in_definition_order.simps)
  show "values_below (Suc k) ((map (map_uses f) xs @ [?add]) @ map (map_uses f) P)"
    using k fr(2) po(2) add ab unfolding values_below_iff
    by (simp only: uses_of_simps outputs_of_simps) (auto simp: less_Suc_eq)
  show "quiet s0 (map (map_uses f) xs) = quiet s0 xs" by (rule fr(1))
qed

lemma scan_inv_destroy:
  assumes inv: "scan_inv s0 c" and r: "rest c = n # post"
    and mid: "(if kind n = GradOf then body_nodes n else []) = mid"
    and pl: "list_all plain mid"
    and fixed: "\<forall>x. x \<notin> set (outputs n) \<longrightarrow> f x = x"
    and rng: "\<forall>x. f x = x \<or> f x \<in> set (top_uses n)"
  shows "scan_inv s0 (c\<lparr>front := map (map_uses f) (front c @ mid),
                          rest := map (map_uses f) post, outs := os\<rparr>)"
proof -
  let ?P = "with_bodies post"
  from r mid have wb: "front c @ with_bodies (rest c) = (front c @ mid) @ n # ?P" by auto
  from inv have ord: "in_definition_order ((front c @ mid) @ n # ?P)"
    and below: "values_below (fresh c) ((front c @ mid) @ n # ?P)"
    and kinds: "\<forall>m \<in> set (front c). kind m \<noteq> GradOf"
    unfolding scan_inv_def wb by simp_all
  from inv obtain st2 where q: "quiet s0 (front c) = Some st2"
    and nk: "no_more_known (state c) st2"
    by (auto simp: scan_inv_def)
  note l = lists_destroy [OF ord below fixed rng]
  from pl have "\<forall>m \<in> set mid. kind m \<noteq> GradOf"
    by (auto simp: list_all_iff plain_def)
  with kinds have k': "\<forall>m \<in> set (front c @ mid). kind m \<noteq> GradOf" by auto
  from quiet_plain [OF pl nk] q
  have "\<exists>st2'. quiet s0 (front c @ mid) = Some st2' \<and> no_more_known (state c) st2'"
    by (simp add: quiet_append)
  with l(3) have q': "\<exists>st2'. quiet s0 (map (map_uses f) (front c @ mid)) = Some st2' \<and>
      no_more_known (state c) st2'"
    by simp
  show ?thesis
    unfolding scan_inv_def using l(1,2) k' q' by (auto simp: with_bodies_map_uses)
qed

lemma scan_inv_zero:
  assumes inv: "scan_inv s0 c" and r: "rest c = n # post"
    and fixed: "\<forall>x. x \<notin> set (outputs n) \<longrightarrow> f x = x"
    and rng: "\<forall>x. f x = x \<or> f x \<in> {fresh c}"
  shows "scan_inv s0 (c\<lparr>front := map (map_uses f) (front c),
                          rest := createAutogradZero (fresh c) # map (map_uses f) post,
                          outs := os, fresh := Suc (fresh c)\<rparr>)"
proof -
  let ?P = "with_bodies post"
  let ?mid = "if kind n = GradOf then body_nodes n else []"
  from r have wb: "front c @ with_bodies (rest c) = front c @ ?mid @ n # ?P" by simp
  from inv have o: "in_definition_order (front c @ ?mid @ n # ?P)"
    and b: "values_below (fresh c) (front c @ ?mid @ n # ?P)"
    unfolding scan_inv_def wb by simp_all
  from o have ord: "in_definition_order (front c @ n # ?P)"
    by (rule in_definition_order_drop_mid)
  from b have below: "values_below (fresh c) (front c @ n # ?P)"
    by (rule values_below_drop_mid)
  from inv have kinds: "\<forall>m \<in> set (front c). kind m \<noteq> GradOf"
    and q: "\<exists>st2. quiet s0 (front c) = Some st2 \<and> no_more_known (state c) st2"
    by (simp_all add: scan_inv_def)
  note l = lists_zero [OF ord below fixed rng]
  have "kind (createAutogradZero (fresh c)) \<noteq> GradOf" by (simp add: createAutogradZero_def)
  with l kinds q show ?thesis
    by (simp add: scan_inv_def with_bodies_map_uses)
qed

lemma scan_inv_plain_add:
  assumes inv: "scan_inv s0 c" and r: "rest c = n # post" and kn: "kind n \<noteq> GradOf"
    and ins: "inputs n = a # b # others"
    and fixed: "\<forall>x. x \<notin> set (outputs n) \<longrightarrow> f x = x"
    and rng: "\<forall>x. f x = x \<or> f x \<in> {fresh c}"
  shows "scan_inv s0 (c\<lparr>state := (state c)(fresh c \<mapsto> Nonzero),
                          front := map (map_uses f) (front c) @ [create_add (fresh c) a b],
                          rest := map (map_uses f) post,
                          outs := os, fresh := Suc (fresh c)\<rparr>)"
proof -
  let ?add = "create_add (fresh c) a b"
  let ?P = "with_bodies post"
  from r kn have wb: "front c @ with_bodies (rest c) = front c @ n # ?P" by simp
  from inv have ord: "in_definition_order (front c @ n # ?P)"
    and below: "values_below (fresh c) (front c @ n # ?P)"
    and kinds: "\<forall>m \<in> set (front c). kind m \<noteq> GradOf"
    unfolding scan_inv_def wb by simp_all
  from inv obtain st2 where q: "quiet s0 (front c) = Some st2"
    and nk: "no_more_known (state c) st2"
    by (auto simp: scan_inv_def)
  note l = lists_plain_add [OF ord below ins fixed rng]
  have add: "kind ?add = aten_add" "outputs ?add = [fresh c]" by (simp_all add: create_add_def)
  have "quiet s0 (map (map_uses f) (front c) @ [?add]) = Some (st2(fresh c \<mapsto> Unknown))"
    using l(3) q add by (simp add: quiet_append)
  moreover have "no_more_known ((state c)(fresh c \<mapsto> Nonzero)) (st2(fresh c \<mapsto> Unknown))"
    using nk by (rule no_more_known_plain_add)
  ultimately show ?thesis using kinds add(1) l(1,2)
    by (simp add: scan_inv_def with_bodies_map_uses)
qed

lemma scan_inv_advance:
  assumes inv: "scan_inv s0 c" and r: "rest c = n # post" and k: "kind n \<noteq> GradOf"
    and step: "\<And>st2. no_more_known (state c) st2 \<Longrightarrow>
                 \<exists>st2'. quiet st2 [n] = Some st2' \<and> no_more_known st' st2'"
  shows "scan_inv s0 (c\<lparr>state := st', front := front c @ [n], rest := post\<rparr>)"
proof -
  from inv obtain st2 where q: "quiet s0 (front c) = Some st2"
    and nk: "no_more_known (state c) st2"
    by (auto simp: scan_inv_def)
  from step [OF nk] obtain st2' where "quiet st2 [n] = Some st2'" "no_more_known st' st2'"
    by blast
  with q have "\<exists>st2'. quiet s0 (front c @ [n]) = Some st2' \<and> no_more_known st' st2'"
    by (simp add: quiet_append)
  with inv r k show ?thesis by (simp add: scan_inv_def)
qed

lemma output_of_SomeD: "output_of n = Some out \<Longrightarrow> outputs n = [out]"
  by (auto simp: output_of_def split: list.splits)

lemma rewire_length:
  "rewire i (out # os) c = Inr c' \<Longrightarrow> i + length (out # os) \<le> length (body_outputs c)"
proof (induction os arbitrary: i out c)
  case Nil
  then show ?case by (auto split: if_splits)
next
  case (Cons o2 os)
  let ?c1 = "replaceAllUsesWith out (body_outputs c ! i) c"
  from Cons.prems have i: "i < length (body_outputs c)"
    and rw: "rewire (Suc i) (o2 # os) ?c1 = Inr c'"
    by (auto split: if_splits)
  have "length (body_outputs ?c1) = length (body_outputs c)"
    by (simp add: replaceAllUsesWith_def body_outputs_redirect)
  with Cons.IH [OF rw] show ?case by simp
qed

lemma rewired_props:
  "x \<notin> set os \<Longrightarrow> rewired os bos x = x"
  "rewired os bos x = x \<or> rewired os bos x \<in> set bos"
proof -
  show "rewired os bos x = x" if "x \<notin> set os"
  proof -
    from that have "map_of (zip os bos) x = None"
      by (auto simp: map_of_eq_None_iff dest: set_zip_leftD)
    then show ?thesis by (simp add: rewired_def)
  qed
  show "rewired os bos x = x \<or> rewired os bos x \<in> set bos"
  proof (cases "map_of (zip os bos) x")
    case None
    then show ?thesis by (simp add: rewired_def)
  next
    case (Some b)
    then have "(x, b) \<in> set (zip os bos)" by (rule map_of_SomeD)
    then have "b \<in> set bos" by (rule set_zip_rightD)
    with Some show ?thesis by (simp add: rewired_def)
  qed
qed

lemma rewired_maps:
  assumes "x \<in> set os" and "length os \<le> length bos"
  shows "rewired os bos x \<in> set bos"
proof -
  from assms have "x \<in> fst ` set (zip os bos)"
    by (simp add: map_fst_zip_take flip: set_map)
  then obtain b where "map_of (zip os bos) x = Some b"
    by (cases "map_of (zip os bos) x") (auto simp: map_of_eq_None_iff)
  moreover from this have "b \<in> set bos"
    by (auto dest: map_of_SomeD set_zip_rightD)
  ultimately show ?thesis by (simp add: rewired_def)
qed

lemma rewire_redirect_maps:
  assumes "rewire 0 os c = Inr c'" and "set os \<inter> set (body_outputs c) = {}"
  shows "\<exists>f. c' = redirect f c \<and> (\<forall>x. x \<notin> set os \<longrightarrow> f x = x) \<and>
             (\<forall>x \<in> set os. f x \<in> set (body_outputs c))"
proof (cases os)
  case Nil
  with assms(1) have "c' = redirect (\<lambda>x. x) c" by (simp add: redirect_id)
  with Nil show ?thesis by auto
next
  case (Cons out os')
  with assms(1) have len: "0 + length os \<le> length (body_outputs c)"
    using rewire_length [of 0 out os' c c'] by simp
  from rewire_effect [OF this assms(2)] assms(1)
  have "c' = redirect (rewired os (body_outputs c)) c" by simp
  moreover have "\<forall>x. x \<notin> set os \<longrightarrow> rewired os (body_outputs c) x = x"
    by (simp add: rewired_props(1))
  moreover have "\<forall>x \<in> set os. rewired os (body_outputs c) x \<in> set (body_outputs c)"
    using len by (simp add: rewired_maps)
  ultimately show ?thesis by blast
qed

lemma dom_fold_upd:
  "dom (fold (\<lambda>out st. st(out \<mapsto> s)) os st) = dom st \<union> set os"
  by (induction os arbitrary: st) auto

lemma visit_cases [consumes 3, case_names destroy zero plain_add keep]:
  assumes selfdis: "set (top_uses n) \<inter> set (outputs n) = {}"
    and r: "rest c = n # post" and v: "visit c = Inr c'"
  obtains
    (destroy) f where "\<forall>x. x \<notin> set (outputs n) \<longrightarrow> f x = x"
      and "\<forall>x \<in> set (outputs n). f x \<in> set (top_uses n)"
      and "(if kind n = GradOf then body_nodes n else []) = spliced c"
      and "c' = c\<lparr>front := map (map_uses f) (front c @ spliced c),
                   rest := map (map_uses f) post, outs := map f (outs c)\<rparr>"
  | (zero) f where "\<forall>x. x \<notin> set (outputs n) \<longrightarrow> f x = x"
      and "\<forall>x \<in> set (outputs n). f x = fresh c"
      and "c' = c\<lparr>front := map (map_uses f) (front c),
                   rest := createAutogradZero (fresh c) # map (map_uses f) post,
                   outs := map f (outs c), fresh := Suc (fresh c)\<rparr>"
  | (plain_add) f a b others where "kind n = AutogradAdd" and "inputs n = a # b # others"
      and "\<forall>x. x \<notin> set (outputs n) \<longrightarrow> f x = x"
      and "\<forall>x \<in> set (outputs n). f x = fresh c"
      and "c' = c\<lparr>state := (state c)(fresh c \<mapsto> Nonzero),
                   front := map (map_uses f) (front c) @ [create_add (fresh c) a b],
                   rest := map (map_uses f) post,
                   outs := map f (outs c), fresh := Suc (fresh c)\<rparr>"
  | (keep) st' where "kind n \<noteq> GradOf"
      and "c' = c\<lparr>state := st', front := front c @ [n], rest := post\<rparr>"
      and "dom st' = dom (state c) \<union> set (outputs n)"
      and "\<And>st2. no_more_known (state c) st2 \<Longrightarrow>
             \<exists>st2'. quiet st2 [n] = Some st2' \<and> no_more_known st' st2'"
proof -
  show ?thesis
  proof (cases "kind n")
    case GradOf
    show ?thesis
    proof (cases "list_all (\<lambda>v. state_at (state c) v = Zero) (inputs n)")
      case True
      let ?f = "\<lambda>x. if x \<in> set (outputs n) then fresh c else x"
      from True GradOf r
      have "visit c = Inr (c\<lparr>front := map (map_uses ?f) (front c),
                    rest := createAutogradZero (fresh c) # map (map_uses ?f) post,
                    outs := map ?f (outs c), fresh := Suc (fresh c)\<rparr>)"
        by (simp add: visit_def visit_GradOf_def Let_def fold_replace_redirect insertAfter_def
            destroyCurrent_def createAutogradZero_def redirect_def)
      with v have "c' = c\<lparr>front := map (map_uses ?f) (front c),
                    rest := createAutogradZero (fresh c) # map (map_uses ?f) post,
                    outs := map ?f (outs c), fresh := Suc (fresh c)\<rparr>"
        by simp
      then show ?thesis by (intro zero [of ?f]) simp_all
    next
      case False
      with GradOf r v obtain body bs c2 where b: "blocks n = body # bs"
        and known: "\<not> list_ex (\<lambda>input. state_at (state c) input = Unknown) (inputs n)"
        and rw: "rewire 0 (outputs n) (hoist c) = Inr c2" and c': "c' = destroyCurrent c2"
        by (auto simp: visit_def visit_GradOf_def split: list.splits if_splits sum.splits)
      from False known GradOf r b have sp: "spliced c = block_nodes body"
        by (simp add: spliced_def body_nodes_def)
      from r b have h: "hoist c = c\<lparr>front := front c @ block_nodes body,
          rest := drop_body_nodes n # post\<rparr>"
        by (simp add: hoist_def fold_snoc)
      from b have bo: "body_outputs (hoist c) = first_block_outputs n"
        by (simp add: h body_outputs_def first_block_outputs_def drop_body_nodes_def)
      with selfdis have "set (outputs n) \<inter> set (body_outputs (hoist c)) = {}"
        by (auto simp: top_uses_def)
      from rewire_redirect_maps [OF rw this] obtain f
        where c2: "c2 = redirect f (hoist c)"
          and fixed: "\<forall>x. x \<notin> set (outputs n) \<longrightarrow> f x = x"
          and maps: "\<forall>x \<in> set (outputs n). f x \<in> set (body_outputs (hoist c))"
        by blast
      from maps have maps': "\<forall>x \<in> set (outputs n). f x \<in> set (top_uses n)"
        by (simp add: bo top_uses_def)
      from GradOf sp b have m: "(if kind n = GradOf then body_nodes n else []) = spliced c"
        by (simp add: body_nodes_def)
      from c' c2 have "c' = c\<lparr>front := map (map_uses f) (front c @ spliced c),
          rest := map (map_uses f) post, outs := map f (outs c)\<rparr>"
        by (simp add: destroyCurrent_def redirect_def h sp)
      with fixed maps' m show ?thesis by (rule destroy)
    qed
  next
    case AutogradAdd
    from v r AutogradAdd obtain a b others out where ins: "inputs n = a # b # others"
      and out: "output_of n = Some out"
      by (auto simp: visit_def visit_AutogradAdd_def Let_def
          split: list.splits if_splits option.splits)
    from out have outs: "outputs n = [out]" by (rule output_of_SomeD)
    from ins have ab: "a \<in> set (top_uses n)" "b \<in> set (top_uses n)"
      by (simp_all add: top_uses_def)
    with selfdis outs have ne: "a \<noteq> out" "b \<noteq> out" by auto
    have fixed: "\<forall>x. x \<notin> set (outputs n) \<longrightarrow> replaceUse out w x = x" for w
      by (simp add: outs replaceUse_def)
    have maps: "\<forall>x \<in> set (outputs n). replaceUse out w x = w" for w
      by (simp add: outs replaceUse_def)
    from AutogradAdd r
    have nosp: "(if kind n = GradOf then body_nodes n else []) = spliced c" "spliced c = []"
      by (simp_all add: spliced_def)
    consider (a0) "state_at (state c) a = Zero"
      | (b0) "state_at (state c) a \<noteq> Zero" "state_at (state c) b = Zero"
      | (both) "state_at (state c) a = Nonzero" "state_at (state c) b = Nonzero"
      | (left) "state_at (state c) a \<noteq> Zero" "state_at (state c) b \<noteq> Zero"
          "\<not> (state_at (state c) a = Nonzero \<and> state_at (state c) b = Nonzero)"
      by (cases "state_at (state c) a"; cases "state_at (state c) b") auto
    then show ?thesis
    proof cases
      case a0
      with r AutogradAdd ins out
      have "visit c = Inr (c\<lparr>front := map (map_uses (replaceUse out b)) (front c),
          rest := map (map_uses (replaceUse out b)) post,
          outs := map (replaceUse out b) (outs c)\<rparr>)"
        by (simp add: visit_def visit_AutogradAdd_def replaceAllUsesWith_def redirect_def
            destroyCurrent_def)
      with v have ceq: "c' = c\<lparr>front := map (map_uses (replaceUse out b)) (front c),
          rest := map (map_uses (replaceUse out b)) post,
          outs := map (replaceUse out b) (outs c)\<rparr>"
        by simp
      have "\<forall>x \<in> set (outputs n). replaceUse out b x \<in> set (top_uses n)"
        by (simp add: maps ab)
      moreover note nosp
      ultimately show ?thesis using fixed ceq by (intro destroy [of "replaceUse out b"]) simp_all
    next
      case b0
      with r AutogradAdd ins out
      have "visit c = Inr (c\<lparr>front := map (map_uses (replaceUse out a)) (front c),
          rest := map (map_uses (replaceUse out a)) post,
          outs := map (replaceUse out a) (outs c)\<rparr>)"
        by (simp add: visit_def visit_AutogradAdd_def replaceAllUsesWith_def redirect_def
            destroyCurrent_def)
      with v have ceq: "c' = c\<lparr>front := map (map_uses (replaceUse out a)) (front c),
          rest := map (map_uses (replaceUse out a)) post,
          outs := map (replaceUse out a) (outs c)\<rparr>"
        by simp
      have "\<forall>x \<in> set (outputs n). replaceUse out a x \<in> set (top_uses n)"
        by (simp add: maps ab)
      moreover note nosp
      ultimately show ?thesis using fixed ceq by (intro destroy [of "replaceUse out a"]) simp_all
    next
      case both
      let ?f = "replaceUse out (fresh c)"
      from both r AutogradAdd ins out ne
      have "visit c = Inr (c\<lparr>state := (state c)(fresh c \<mapsto> Nonzero),
          front := map (map_uses ?f) (front c) @ [create_add (fresh c) a b],
          rest := map (map_uses ?f) post,
          outs := map ?f (outs c), fresh := Suc (fresh c)\<rparr>)"
        by (simp add: visit_def visit_AutogradAdd_def replaceAllUsesWith_def redirect_def
            destroyCurrent_def insertBefore_def create_add_def Let_def replaceUse_def)
      with v have "c' = c\<lparr>state := (state c)(fresh c \<mapsto> Nonzero),
          front := map (map_uses ?f) (front c) @ [create_add (fresh c) a b],
          rest := map (map_uses ?f) post,
          outs := map ?f (outs c), fresh := Suc (fresh c)\<rparr>"
        by simp
      with AutogradAdd ins fixed maps show ?thesis by (rule plain_add)
    next
      case left
      with v r AutogradAdd ins out
      have c': "c' = c\<lparr>state := (state c)(out \<mapsto> Unknown), front := front c @ [n], rest := post\<rparr>"
        by (auto simp: visit_def visit_AutogradAdd_def advance_def)
      have "\<exists>st2'. quiet st2 [n] = Some st2' \<and>
              no_more_known ((state c)(out \<mapsto> Unknown)) st2'"
        if nk: "no_more_known (state c) st2" for st2
      proof -
        from nk left have "state_at st2 a \<noteq> Zero" "state_at st2 b \<noteq> Zero"
          "\<not> (state_at st2 a = Nonzero \<and> state_at st2 b = Nonzero)"
          unfolding no_more_known_def
          by (metis State.distinct(1) State.exhaust)+
        with AutogradAdd ins out have "quiet st2 [n] = Some (st2(out \<mapsto> Unknown))" by simp
        with no_more_known_upd [OF nk] show ?thesis by simp
      qed
      with AutogradAdd c' outs show ?thesis by (intro keep [of "(state c)(out \<mapsto> Unknown)"]) auto
    qed
  next
    case AutogradZero
    from v r AutogradZero obtain out where out: "output_of n = Some out"
      and c': "c' = c\<lparr>state := (state c)(out \<mapsto> Zero), front := front c @ [n], rest := post\<rparr>"
      by (auto simp: visit_def visit_AutogradZero_def advance_def split: option.splits)
    from out have outs: "outputs n = [out]" by (rule output_of_SomeD)
    have "\<exists>st2'. quiet st2 [n] = Some st2' \<and> no_more_known ((state c)(out \<mapsto> Zero)) st2'"
      if nk: "no_more_known (state c) st2" for st2
      using AutogradZero out no_more_known_upd [OF nk] by simp
    with AutogradZero c' outs show ?thesis by (intro keep [of "(state c)(out \<mapsto> Zero)"]) auto
  next
    case aten_add
    let ?up = "fold (\<lambda>out st. st(out \<mapsto> Unknown)) (outputs n)"
    from v r aten_add
    have c': "c' = c\<lparr>state := ?up (state c), front := front c @ [n], rest := post\<rparr>"
      by (auto simp: visit_def visit_default_def advance_def)
    have "\<exists>st2'. quiet st2 [n] = Some st2' \<and> no_more_known (?up (state c)) st2'"
      if nk: "no_more_known (state c) st2" for st2
      using aten_add no_more_known_fold [OF nk] by simp
    with aten_add c' show ?thesis by (intro keep [of "?up (state c)"]) (auto simp: dom_fold_upd)
  next
    case (OtherKind k)
    let ?up = "fold (\<lambda>out st. st(out \<mapsto> Unknown)) (outputs n)"
    from v r OtherKind
    have c': "c' = c\<lparr>state := ?up (state c), front := front c @ [n], rest := post\<rparr>"
      by (auto simp: visit_def visit_default_def advance_def)
    have "\<exists>st2'. quiet st2 [n] = Some st2' \<and> no_more_known (?up (state c)) st2'"
      if nk: "no_more_known (state c) st2" for st2
      using OtherKind no_more_known_fold [OF nk] by simp
    with OtherKind c' show ?thesis by (intro keep [of "?up (state c)"]) (auto simp: dom_fold_upd)
  qed
qed

lemma fixed_maps_range:
  "\<forall>x. x \<notin> A \<longrightarrow> f x = x \<Longrightarrow> \<forall>x \<in> A. f x \<in> W \<Longrightarrow> \<forall>x. f x = x \<or> f x \<in> W"
  by blast

lemma scan_inv_selfdis:
  assumes "scan_inv s0 c" and "rest c = n # post"
  shows "set (top_uses n) \<inter> set (outputs n) = {}"
proof -
  let ?mid = "if kind n = GradOf then body_nodes n else []"
  from assms have "in_definition_order ((front c @ ?mid) @ n # with_bodies post)"
    by (simp add: scan_inv_def)
  then show ?thesis
    by (auto simp: in_definition_order_append in_definition_order_Cons
        simp del: in_definition_order.simps)
qed

lemma scan_inv_visit:
  assumes inv: "scan_inv s0 c" and pl: "list_all plain (spliced c)" and r: "rest c = n # post"
    and v: "visit c = Inr c'"
  shows "scan_inv s0 c'"
proof -
  from scan_inv_selfdis [OF inv r] r v show ?thesis
  proof (cases rule: visit_cases)
    case (destroy f)
    from scan_inv_destroy [OF inv r destroy(3) pl destroy(1) fixed_maps_range [OF destroy(1,2)]]
      destroy(4)
    show ?thesis by simp
  next
    case (zero f)
    from zero(2) have "\<forall>x \<in> set (outputs n). f x \<in> {fresh c}" by simp
    from scan_inv_zero [OF inv r zero(1) fixed_maps_range [OF zero(1) this]] zero(3)
    show ?thesis by simp
  next
    case (plain_add f a b others)
    from plain_add(1) have kn: "kind n \<noteq> GradOf" by simp
    from plain_add(4) have "\<forall>x \<in> set (outputs n). f x \<in> {fresh c}" by simp
    from scan_inv_plain_add [OF inv r kn plain_add(2,3) fixed_maps_range [OF plain_add(3) this]]
      plain_add(5)
    show ?thesis by simp
  next
    case (keep st')
    from scan_inv_advance [OF inv r keep(1,4)] keep(2) show ?thesis by simp
  qed
qed

lemma scan_inv_scan:
  "scan c = Inr r \<Longrightarrow> scan_inv s0 c \<Longrightarrow> splices_only plain c \<Longrightarrow> scan_inv s0 r \<and> rest r = []"
proof (induction c rule: scan.induct)
  case (1 c)
  show ?case
  proof (cases "rest c")
    case Nil
    with "1.prems" show ?thesis by (simp add: scan.simps [of c])
  next
    case (Cons n post)
    with "1.prems"(1) obtain c' where v: "visit c = Inr c'" and s: "scan c' = Inr r"
      by (auto simp: scan.simps [of c] split: sum.splits)
    from "1.prems"(3) Cons v have pl: "list_all plain (spliced c)"
      and sn: "splices_only plain c'"
      by (simp_all add: splices_only.simps [of plain c])
    from scan_inv_visit [OF "1.prems"(2) pl Cons v] have "scan_inv s0 c'" .
    with "1.IH" [OF _ v s] sn Cons show ?thesis by simp
  qed
qed

lemma scan_inv_begin:
  "in_definition_order (with_bodies (graph_nodes g)) \<Longrightarrow>
   values_below (next_unique g) (with_bodies (graph_nodes g)) \<Longrightarrow>
   scan_inv (seed (value_type g) (graph_inputs g) Map.empty) (begin_scan g)"
  by (simp add: scan_inv_def begin_scan_def no_more_known_refl)

text \<open>
  Claim C9, amended. On a graph in definition order, when the first run completes and the
  nodes that its iterations splice out of nested blocks are all plain, a second run on the
  graph the first run returned keeps every node: it returns the very same graph (same
  nodes, same outputs, no identity allocated).
\<close>

theorem C9_idempotent_when_splices_are_plain:
  assumes "specializeAutogradZero g = Inr g'"
    and "in_definition_order (with_bodies (graph_nodes g))"
    and "values_below (next_unique g) (with_bodies (graph_nodes g))"
    and "splices_only plain (begin_scan g)"
  shows "specializeAutogradZero g' = Inr g'"
proof -
  let ?s0 = "seed (value_type g) (graph_inputs g) Map.empty"
  from assms(1) obtain r where r: "scan (begin_scan g) = Inr r"
    and g': "g' = g\<lparr>graph_nodes := front r, graph_outputs := outs r, next_unique := fresh r\<rparr>"
    by (auto simp: specializeAutogradZero_def split: sum.splits)
  have "scan_inv ?s0 (begin_scan g)"
    using assms(2,3) by (rule scan_inv_begin)
  from scan_inv_scan [OF r this assms(4)] obtain st2
    where q: "quiet ?s0 (front r) = Some st2"
    by (auto simp: scan_inv_def)
  have b: "begin_scan g' = \<lparr>state = ?s0, front = [], rest = front r, outs = outs r,
      fresh = fresh r\<rparr>"
    by (simp add: g' begin_scan_def)
  have sc: "scan (begin_scan g') =
      Inr \<lparr>state = st2, front = front r, rest = [], outs = outs r, fresh = fresh r\<rparr>"
    using quiet_scan [of "begin_scan g'" "front r" st2] by (simp add: b q)
  have "g'\<lparr>graph_nodes := front r, graph_outputs := outs r, next_unique := fresh r\<rparr> = g'"
    by (simp add: g')
  with sc show ?thesis by (simp add: specializeAutogradZero_def)
qed

theorem C9_idempotent_when_splices_are_plain_witness:
  "in_definition_order (with_bodies (graph_nodes replay_graph)) \<and>
   values_below (next_unique replay_graph) (with_bodies (graph_nodes replay_graph)) \<and>
   splices_only plain (begin_scan replay_graph) \<and>
   (\<exists>g'. specializeAutogradZero replay_graph = Inr g' \<and>
      graph_nodes g' =
        [Node 30 aten_add [4, 4] [30] [],
         Node 22 AutogradAdd [30, 5] [8] [],
         Node 31 AutogradZero [] [31] [],
         Node 27 (OtherKind 2) [4, 8] [13] [],
         Node 26 AutogradAdd [13, 5] [12] [],
         Node 28 (OtherKind 1) [31, 12] [14] []] \<and>
      specializeAutogradZero g' = Inr g')"
proof -
  have h2: "in_definition_order (with_bodies (graph_nodes replay_graph))" by code_simp
  have h3: "values_below (next_unique replay_graph) (with_bodies (graph_nodes replay_graph))"
    by code_simp
  have h4: "splices_only plain (begin_scan replay_graph)" by code_simp
  have "case specializeAutogradZero replay_graph of
          Inl e \<Rightarrow> False
        | Inr g' \<Rightarrow> graph_nodes g' =
            [Node 30 aten_add [4, 4] [30] [],
             Node 22 AutogradAdd [30, 5] [8] [],
             Node 31 AutogradZero [] [31] [],
             Node 27 (OtherKind 2) [4, 8] [13] [],
             Node 26 AutogradAdd [13, 5] [12] [],
             Node 28 (OtherKind 1) [31, 12] [14] []]"
    by code_simp
  then obtain g' where h1: "specializeAutogradZero replay_graph = Inr g'"
    and n: "graph_nodes g' =
        [Node 30 aten_add [4, 4] [30] [],
         Node 22 AutogradAdd [30, 5] [8] [],
         Node 31 AutogradZero [] [31] [],
         Node 27 (OtherKind 2) [4, 8] [13] [],
         Node 26 AutogradAdd [13, 5] [12] [],
         Node 28 (OtherKind 1) [31, 12] [14] []]"
    by (cases "specializeAutogradZero replay_graph") auto
  from C9_idempotent_when_splices_are_plain [OF h1 h2 h3 h4] h1 h2 h3 h4 n
  show ?thesis by blast
qed

subsection \<open>The classification map during the scan\<close>

text \<open>
  A region whose body is spliced, followed by a guarded addition that reads the region's
  output.
\<close>

definition spliced_then_read :: Graph where
  "spliced_then_read =
     \<lparr>graph_inputs = [4], value_type = (\<lambda>v. TensorType None),
      graph_nodes = [Node 21 GradOf [4] [7] [Block [Node 22 (OtherKind 2) [4] [10] []] [10]],
                     Node 23 AutogradAdd [7, 4] [9] []],
      graph_outputs = [9], next_unique = 24\<rparr>"

text \<open>
  Claim C1, as stated, does not hold. In the scan of \<open>spliced_then_read\<close> an iteration
  reads a key that has no entry. After the region is spliced, the guarded addition under the
  iterator has the value 10 as its first input, which line 80 reads; 10 is the output of the
  spliced node, no classification was ever assigned to it, and the read does not yield
  \<open>Unknown\<close>: the addition is replaced by a plain one, which happens only when both
  operands read \<open>Nonzero\<close>.
\<close>

theorem C1_counterexample:
  "\<not> reads_classified (begin_scan spliced_then_read) \<and>
   (case visit (begin_scan spliced_then_read) of
      Inl e \<Rightarrow> False
    | Inr c \<Rightarrow>
        rest c = [Node 23 AutogradAdd [10, 4] [9] []] \<and> reads c = [10, 4, 10, 4] \<and>
        state c 10 = None \<and> state_at (state c) 10 \<noteq> Unknown \<and>
        (case visit c of
           Inl e \<Rightarrow> False
         | Inr c' \<Rightarrow> front c' = [Node 22 (OtherKind 2) [4] [10] [],
                                 Node 24 aten_add [10, 4] [24] []]))"
  by code_simp

text \<open>
  \<open>closed D ns\<close>: every node of \<open>ns\<close> has as inputs only values of \<open>D\<close> and outputs of
  the nodes of \<open>ns\<close> in front of it, and the outputs of a region's nested block are such
  values or outputs of the nodes of that block.
\<close>

fun closed :: "Value set \<Rightarrow> Node list \<Rightarrow> bool" where
  "closed D [] = True"
| "closed D (n # ns) =
     (set (inputs n) \<subseteq> D \<and>
      (kind n = GradOf \<longrightarrow>
         set (first_block_outputs n) \<subseteq> D \<union> set (concat (map outputs (body_nodes n)))) \<and>
      closed (D \<union> set (outputs n)) ns)"

text \<open>
  \<open>reads_accounted sp c\<close>, for \<open>sp\<close> the outputs of the nodes that the iterations in
  front of \<open>c\<close> spliced out of nested blocks: in every iteration of the scan, from \<open>c\<close> on,
  each key that the iteration reads has an entry in the map, assigned before the read, or is
  an output of a node that an earlier iteration spliced.
\<close>

function reads_accounted :: "Value list \<Rightarrow> Scan \<Rightarrow> bool" where
  "reads_accounted sp c =
     (if rest c = [] then True
      else list_all (\<lambda>v. state c v \<noteq> None \<or> v \<in> set sp) (reads c) \<and>
           (case visit c of
              Inl e \<Rightarrow> True
            | Inr c' \<Rightarrow> reads_accounted (sp @ concat (map outputs (spliced c))) c'))"
  by pat_completeness auto
termination
  by (relation "measure (\<lambda>(sp, c). todo c)") (auto simp: visit_decreases)

declare reads_accounted.simps [simp del]

text \<open>
  What an iteration does apart from the classification map: the error it throws, if any,
  the nodes in front of and behind the iterator, the graph's outputs and the next unused
  identity, as it leaves them.
\<close>

definition outcome ::
  "(error \<times> Scan) + Scan \<Rightarrow> error option \<times> Node list \<times> Node list \<times> Value list \<times> nat" where
  "outcome r =
     (case r of
        Inl (e, c) \<Rightarrow> (Some e, front c, rest c, outs c, fresh c)
      | Inr c \<Rightarrow> (None, front c, rest c, outs c, fresh c))"

lemma visit_GradOf_state:
  assumes "visit_GradOf n c = Inr c'"
  shows "state c' = state c"
proof (cases "list_all (\<lambda>v. state_at (state c) v = Zero) (inputs n)")
  case True
  with assms show ?thesis
    by (auto simp: visit_GradOf_def Let_def fold_replace_redirect insertAfter_def
        destroyCurrent_def split: list.splits)
next
  case False
  with assms obtain c2 where rw: "rewire 0 (outputs n) (hoist c) = Inr c2"
    and c': "c' = destroyCurrent c2"
    by (auto simp: visit_GradOf_def split: list.splits if_splits sum.splits)
  from rw obtain f where "c2 = redirect f (hoist c)" using rewire_redirect by blast
  with c' show ?thesis by (simp add: destroyCurrent_def)
qed

lemma reads_GradOf_subset: "set (reads_GradOf st n) \<subseteq> set (inputs n)"
  by (auto simp: reads_GradOf_def Let_def split: if_splits
      dest!: in_set_takeD dest: set_takeWhileD set_dropWhileD)

lemma reads_AutogradAdd_subset: "set (reads_AutogradAdd st n) \<subseteq> set (inputs n)"
  by (cases "inputs n"; cases "tl (inputs n)") (auto simp: reads_AutogradAdd_def)

lemma reads_subset: "rest c = n # post \<Longrightarrow> set (reads c) \<subseteq> set (inputs n)"
  using reads_GradOf_subset [of "state c" n] reads_AutogradAdd_subset [of "state c" n]
  by (cases "kind n") (simp_all add: reads_def)

lemma first_block_outputs_map_uses [simp]:
  "first_block_outputs (map_uses f n) = map f (first_block_outputs n)"
  by (cases n) (auto simp: first_block_outputs_def split: list.splits)

lemma outputs_map_map_uses [simp]:
  "concat (map outputs (map (map_uses f) ns)) = concat (map outputs ns)"
  by (induction ns) auto

lemma closed_redirect:
  assumes "closed (D \<union> A) post" and "\<forall>x \<in> A. f x \<in> D'" and "D \<subseteq> D'"
    and fixed: "\<forall>x. x \<notin> A \<longrightarrow> f x = x"
  shows "closed D' (map (map_uses f) post)"
  using assms(1-3)
proof (induction post arbitrary: D D')
  case Nil
  show ?case by simp
next
  case (Cons m ms)
  let ?B = "set (concat (map outputs (body_nodes m)))"
  from Cons.prems(1) have uses: "set (inputs m) \<subseteq> D \<union> A"
    and cl: "closed ((D \<union> set (outputs m)) \<union> A) ms"
    by (simp_all add: Un_ac)
  have moved: "f v \<in> D' \<union> W" if "v \<in> D \<union> A \<union> W" for v W
  proof (cases "v \<in> A")
    case True
    with Cons.prems(2) have "f v \<in> D'" by (rule bspec)
    then show ?thesis by simp
  next
    case False
    with fixed have "f v = v" by simp
    moreover from False that Cons.prems(3) have "v \<in> D' \<union> W" by blast
    ultimately show ?thesis by simp
  qed
  have "f v \<in> D'" if "v \<in> set (inputs m)" for v
    using moved [of v "{}"] that uses by blast
  then have ins: "f ` set (inputs m) \<subseteq> D'" by blast
  have bos: "f ` set (first_block_outputs m) \<subseteq> D' \<union> ?B" if k: "kind m = GradOf"
  proof -
    from Cons.prems(1) k have "set (first_block_outputs m) \<subseteq> D \<union> A \<union> ?B" by simp
    then have "f v \<in> D' \<union> ?B" if "v \<in> set (first_block_outputs m)" for v
      using moved [of v ?B] that by blast
    then show ?thesis by blast
  qed
  have "closed (D' \<union> set (outputs m)) (map (map_uses f) ms)"
  proof (rule Cons.IH [OF cl])
    from Cons.prems(2) show "\<forall>x \<in> A. f x \<in> D' \<union> set (outputs m)" by blast
    from Cons.prems(3) show "D \<union> set (outputs m) \<subseteq> D' \<union> set (outputs m)" by blast
  qed
  with ins bos show ?case by simp
qed

text \<open>
  Lines 71 and 72 redirect every output of the region to an output of its nested block,
  whether or not the two lists share a value.
\<close>

lemma rewire_redirect_range:
  "rewire i os c = Inr c' \<Longrightarrow>
   \<exists>f. c' = redirect f c \<and> (\<forall>x. x \<notin> set os \<longrightarrow> f x = x) \<and>
       (\<forall>x. f x \<noteq> x \<longrightarrow> f x \<in> set (body_outputs c)) \<and>
       (\<forall>x \<in> set os. f x \<in> set (body_outputs c))"
proof (induction os arbitrary: i c)
  case Nil
  then have "c' = redirect (\<lambda>x. x) c" by (simp add: redirect_id)
  then show ?case by (intro exI [of _ "\<lambda>x. x"]) simp
next
  case (Cons out os)
  let ?bos = "body_outputs c"
  let ?r = "replaceUse out (?bos ! i)"
  let ?c1 = "replaceAllUsesWith out (?bos ! i) c"
  from Cons.prems have i: "i < length ?bos" and rw: "rewire (Suc i) os ?c1 = Inr c'"
    by (auto split: if_splits)
  from i have bi: "?bos ! i \<in> set ?bos" by simp
  have bos1: "body_outputs ?c1 = map ?r ?bos"
    by (simp add: replaceAllUsesWith_def body_outputs_redirect)
  have sub: "y \<in> set ?bos" if "y \<in> set (body_outputs ?c1)" for y
  proof -
    from that obtain b where b: "b \<in> set ?bos" and y: "y = ?r b" by (auto simp: bos1)
    show ?thesis
    proof (cases "b = out")
      case True
      with y bi show ?thesis by (simp add: replaceUse_def)
    next
      case False
      with y b show ?thesis by (simp add: replaceUse_def)
    qed
  qed
  from Cons.IH [OF rw] obtain f where c': "c' = redirect f ?c1"
    and fixed: "\<forall>x. x \<notin> set os \<longrightarrow> f x = x"
    and range: "\<forall>x. f x \<noteq> x \<longrightarrow> f x \<in> set (body_outputs ?c1)"
    and maps: "\<forall>x \<in> set os. f x \<in> set (body_outputs ?c1)"
    by blast
  have frange: "f y \<in> set ?bos" if "y \<in> set ?bos" for y
  proof (cases "f y = y")
    case True
    with that show ?thesis by simp
  next
    case False
    with range have "f y \<in> set (body_outputs ?c1)" by simp
    then show ?thesis by (rule sub)
  qed
  have 1: "c' = redirect (f \<circ> ?r) c"
    by (simp add: c' replaceAllUsesWith_def redirect_comp)
  have 2: "(f \<circ> ?r) x = x" if "x \<notin> set (out # os)" for x
    using that fixed by (simp add: replaceUse_def)
  have 4: "(f \<circ> ?r) x \<in> set ?bos" if x: "x \<in> set (out # os)" for x
  proof (cases "x = out")
    case True
    then have "(f \<circ> ?r) x = f (?bos ! i)" by (simp add: replaceUse_def)
    with frange [OF bi] show ?thesis by simp
  next
    case False
    with x have xo: "x \<in> set os" by simp
    from False have "(f \<circ> ?r) x = f x" by (simp add: replaceUse_def)
    moreover from maps xo have "f x \<in> set (body_outputs ?c1)" by (rule bspec)
    then have "f x \<in> set ?bos" by (rule sub)
    ultimately show ?thesis by simp
  qed
  have 3: "(f \<circ> ?r) x \<in> set ?bos" if ne: "(f \<circ> ?r) x \<noteq> x" for x
  proof (cases "x \<in> set (out # os)")
    case True
    then show ?thesis by (rule 4)
  next
    case False
    then have "(f \<circ> ?r) x = x" by (rule 2)
    with ne show ?thesis by simp
  qed
  from 1 2 3 4 show ?case by (intro exI [of _ "f \<circ> ?r"]) blast
qed

text \<open>
  An iteration keeps the nodes behind the iterator closed, once the outputs of the nodes it
  splices are counted in.
\<close>

lemma closed_visit:
  assumes r: "rest c = n # post" and v: "visit c = Inr c'"
    and cl: "closed (dom (state c) \<union> S) (rest c)"
  shows "closed (dom (state c') \<union> (S \<union> set (concat (map outputs (spliced c))))) (rest c')"
proof -
  let ?D = "dom (state c) \<union> S"
  from cl r have ins: "set (inputs n) \<subseteq> ?D"
    and post: "closed (?D \<union> set (outputs n)) post"
    by simp_all
  show ?thesis
  proof (cases "kind n")
    case GradOf
    show ?thesis
    proof (cases "list_all (\<lambda>v. state_at (state c) v = Zero) (inputs n)")
      case True
      let ?f = "\<lambda>x. if x \<in> set (outputs n) then fresh c else x"
      from True GradOf r
      have "visit c = Inr (c\<lparr>front := map (map_uses ?f) (front c),
                    rest := createAutogradZero (fresh c) # map (map_uses ?f) post,
                    outs := map ?f (outs c), fresh := Suc (fresh c)\<rparr>)"
        by (simp add: visit_def visit_GradOf_def Let_def fold_replace_redirect insertAfter_def
            destroyCurrent_def createAutogradZero_def redirect_def)
      with v have c': "rest c' = createAutogradZero (fresh c) # map (map_uses ?f) post"
        "state c' = state c"
        by auto
      from True GradOf r have sp: "spliced c = []" by (simp add: spliced_def)
      have "closed (?D \<union> {fresh c}) (map (map_uses ?f) post)"
        by (rule closed_redirect [OF post]) auto
      with c' sp show ?thesis by (simp add: createAutogradZero_def)
    next
      case False
      with GradOf r v obtain body bs c2 where b: "blocks n = body # bs"
        and known: "\<not> list_ex (\<lambda>input. state_at (state c) input = Unknown) (inputs n)"
        and rw: "rewire 0 (outputs n) (hoist c) = Inr c2" and c': "c' = destroyCurrent c2"
        by (auto simp: visit_def visit_GradOf_def split: list.splits if_splits sum.splits)
      from False known GradOf r b have sp: "spliced c = body_nodes n"
        by (simp add: spliced_def body_nodes_def)
      from r b have h: "hoist c = c\<lparr>front := front c @ block_nodes body,
          rest := drop_body_nodes n # post\<rparr>"
        by (simp add: hoist_def fold_snoc)
      from b have bo: "body_outputs (hoist c) = first_block_outputs n"
        by (simp add: h body_outputs_def first_block_outputs_def drop_body_nodes_def)
      from rewire_redirect_range [OF rw] obtain f
        where c2: "c2 = redirect f (hoist c)"
          and fixed: "\<forall>x. x \<notin> set (outputs n) \<longrightarrow> f x = x"
          and maps: "\<forall>x \<in> set (outputs n). f x \<in> set (first_block_outputs n)"
        unfolding bo by blast
      from c' c2 have c'': "rest c' = map (map_uses f) post" "state c' = state c"
        by (simp_all add: destroyCurrent_def h)
      let ?B = "set (concat (map outputs (body_nodes n)))"
      from cl r GradOf have "set (first_block_outputs n) \<subseteq> ?D \<union> ?B" by simp
      with maps have "\<forall>x \<in> set (outputs n). f x \<in> ?D \<union> ?B" by blast
      from closed_redirect [OF post this Un_upper1 fixed] c'' sp
      show ?thesis by (simp add: Un_ac)
    qed
  next
    case AutogradAdd
    from v r AutogradAdd obtain a b others out where i: "inputs n = a # b # others"
      and out: "output_of n = Some out"
      by (auto simp: visit_def visit_AutogradAdd_def Let_def
          split: list.splits if_splits option.splits)
    from out have outs: "outputs n = [out]" by (rule output_of_SomeD)
    from i ins have ab: "a \<in> ?D" "b \<in> ?D" by simp_all
    from AutogradAdd r have sp: "spliced c = []" by (simp add: spliced_def)
    have red: "closed (?D \<union> W) (map (map_uses (replaceUse out w)) post)" if "w \<in> ?D \<union> W" for w W
    proof (rule closed_redirect [OF post])
      from that show "\<forall>x \<in> set (outputs n). replaceUse out w x \<in> ?D \<union> W"
        by (simp add: outs replaceUse_def)
      show "?D \<subseteq> ?D \<union> W" by blast
      show "\<forall>x. x \<notin> set (outputs n) \<longrightarrow> replaceUse out w x = x"
        by (simp add: outs replaceUse_def)
    qed
    consider (a0) "state_at (state c) a = Zero"
      | (b0) "state_at (state c) a \<noteq> Zero" "state_at (state c) b = Zero"
      | (both) "state_at (state c) a = Nonzero" "state_at (state c) b = Nonzero"
      | (left) "state_at (state c) a \<noteq> Zero" "state_at (state c) b \<noteq> Zero"
          "\<not> (state_at (state c) a = Nonzero \<and> state_at (state c) b = Nonzero)"
      by (cases "state_at (state c) a"; cases "state_at (state c) b") auto
    then show ?thesis
    proof cases
      case a0
      with v r AutogradAdd i out
      have "rest c' = map (map_uses (replaceUse out b)) post" "state c' = state c"
        by (auto simp: visit_def visit_AutogradAdd_def replaceAllUsesWith_def destroyCurrent_def)
      with red [of b "{}"] ab sp show ?thesis by simp
    next
      case b0
      with v r AutogradAdd i out
      have "rest c' = map (map_uses (replaceUse out a)) post" "state c' = state c"
        by (auto simp: visit_def visit_AutogradAdd_def replaceAllUsesWith_def destroyCurrent_def)
      with red [of a "{}"] ab sp show ?thesis by simp
    next
      case both
      with v r AutogradAdd i out
      have "rest c' = map (map_uses (replaceUse out (fresh c))) post"
        "state c' = (state c)(fresh c \<mapsto> Nonzero)"
        by (auto simp: visit_def visit_AutogradAdd_def replaceAllUsesWith_def destroyCurrent_def
            insertBefore_def Let_def)
      with red [of "fresh c" "{fresh c}"] sp show ?thesis by (simp add: Un_ac)
    next
      case left
      with v r AutogradAdd i out
      have "rest c' = post" "state c' = (state c)(out \<mapsto> Unknown)"
        by (auto simp: visit_def visit_AutogradAdd_def advance_def)
      with post outs sp show ?thesis by (simp add: Un_ac)
    qed
  next
    case AutogradZero
    from v r AutogradZero obtain out where out: "output_of n = Some out"
      and c': "rest c' = post" "state c' = (state c)(out \<mapsto> Zero)"
      by (auto simp: visit_def visit_AutogradZero_def advance_def split: option.splits)
    from out have outs: "outputs n = [out]" by (rule output_of_SomeD)
    from AutogradZero r have sp: "spliced c = []" by (simp add: spliced_def)
    with post outs c' show ?thesis by (simp add: Un_ac)
  next
    case aten_add
    with v r have c': "rest c' = post"
      "state c' = fold (\<lambda>out st. st(out \<mapsto> Unknown)) (outputs n) (state c)"
      by (auto simp: visit_def visit_default_def advance_def)
    from aten_add r have sp: "spliced c = []" by (simp add: spliced_def)
    with post c' show ?thesis by (simp add: dom_fold_upd Un_ac)
  next
    case (OtherKind k)
    with v r have c': "rest c' = post"
      "state c' = fold (\<lambda>out st. st(out \<mapsto> Unknown)) (outputs n) (state c)"
      by (auto simp: visit_def visit_default_def advance_def)
    from OtherKind r have sp: "spliced c = []" by (simp add: spliced_def)
    with post c' show ?thesis by (simp add: dom_fold_upd Un_ac)
  qed
qed

lemma reads_accounted_scan:
  "closed (dom (state c) \<union> set sp) (rest c) \<Longrightarrow> reads_accounted sp c"
proof (induction sp c rule: reads_accounted.induct)
  case (1 sp c)
  show ?case
  proof (cases "rest c")
    case Nil
    then show ?thesis by (simp add: reads_accounted.simps [of sp c])
  next
    case (Cons n post)
    from "1.prems" Cons have "set (inputs n) \<subseteq> dom (state c) \<union> set sp" by simp
    with reads_subset [OF Cons] have "set (reads c) \<subseteq> dom (state c) \<union> set sp" by blast
    then have now: "list_all (\<lambda>v. state c v \<noteq> None \<or> v \<in> set sp) (reads c)"
      by (auto simp: list_all_iff)
    have "reads_accounted (sp @ concat (map outputs (spliced c))) c'"
      if v: "visit c = Inr c'" for c'
    proof -
      from closed_visit [OF Cons v "1.prems"]
      have "closed (dom (state c') \<union> set (sp @ concat (map outputs (spliced c)))) (rest c')"
        by simp
      with "1.IH" [OF _ v] Cons show ?thesis by simp
    qed
    with now Cons show ?thesis
      by (simp add: reads_accounted.simps [of sp c] split: sum.splits)
  qed
qed

lemma dom_seed: "dom (seed tp vs Map.empty) = set vs"
  by (auto simp: seed_at split: if_splits)

text \<open>
  The iteration consults the map only through its lookups, so two maps with the same
  lookups lead it to the same rewrite.
\<close>

lemma hoist_state: "hoist (c\<lparr>state := s\<rparr>) = (hoist c)\<lparr>state := s\<rparr>"
  by (simp add: hoist_def split: list.splits)

lemma replaceAllUsesWith_state:
  "replaceAllUsesWith v w (c\<lparr>state := s\<rparr>) = (replaceAllUsesWith v w c)\<lparr>state := s\<rparr>"
  by (simp add: replaceAllUsesWith_def redirect_def)

lemma body_outputs_state [simp]: "body_outputs (c\<lparr>state := s\<rparr>) = body_outputs c"
  by (simp add: body_outputs_def)

lemma outcome_simps [simp]:
  "outcome (Inl (e, c)) = (Some e, front c, rest c, outs c, fresh c)"
  "outcome (Inr c) = (None, front c, rest c, outs c, fresh c)"
  by (simp_all add: outcome_def)

lemma outcome_rewire_state:
  "outcome (case rewire i os (c\<lparr>state := s\<rparr>) of
              Inl e \<Rightarrow> Inl e | Inr c' \<Rightarrow> Inr (destroyCurrent c')) =
   outcome (case rewire i os c of Inl e \<Rightarrow> Inl e | Inr c' \<Rightarrow> Inr (destroyCurrent c'))"
proof (induction i os c rule: rewire.induct)
  case (1 i c)
  show ?case by (simp add: destroyCurrent_def)
next
  case (2 i out os c)
  then show ?case by (simp add: replaceAllUsesWith_state)
qed

lemma outcome_visit_state:
  assumes eq: "state_at st = state_at (state c)"
  shows "outcome (visit (c\<lparr>state := st\<rparr>)) = outcome (visit c)"
proof (cases "rest c")
  case Nil
  then show ?thesis by (simp add: visit_def)
next
  case (Cons n post)
  show ?thesis
  proof (cases "kind n")
    case GradOf
    have "outcome (visit_GradOf n (c\<lparr>state := st\<rparr>)) = outcome (visit_GradOf n c)"
    proof (cases "list_all (\<lambda>v. state_at (state c) v = Zero) (inputs n)")
      case True
      then show ?thesis
        by (simp add: visit_GradOf_def eq Let_def fold_replace_redirect insertAfter_def
            destroyCurrent_def Cons)
    next
      case False
      show ?thesis
      proof (cases "blocks n")
        case Nil
        with False show ?thesis by (simp add: visit_GradOf_def eq)
      next
        case (Cons body bs)
        with False
          outcome_rewire_state [where i = 0 and os = "outputs n" and c = "hoist c" and s = st]
        show ?thesis
          by (simp add: visit_GradOf_def eq hoist_state)
      qed
    qed
    with GradOf Cons show ?thesis by (simp add: visit_def)
  next
    case AutogradAdd
    have "outcome (visit_AutogradAdd n (c\<lparr>state := st\<rparr>)) = outcome (visit_AutogradAdd n c)"
      by (simp add: visit_AutogradAdd_def eq Let_def replaceAllUsesWith_def insertBefore_def
          destroyCurrent_def advance_def split: list.splits option.splits)
    with AutogradAdd Cons show ?thesis by (simp add: visit_def)
  next
    case AutogradZero
    with Cons show ?thesis
      by (simp add: visit_def visit_AutogradZero_def advance_def split: option.splits)
  next
    case aten_add
    with Cons show ?thesis by (simp add: visit_def visit_default_def advance_def)
  next
    case (OtherKind k)
    with Cons show ?thesis by (simp add: visit_def visit_default_def advance_def)
  qed
qed

lemma state_at_default: "st v = None \<Longrightarrow> state_at (st(v \<mapsto> Nonzero)) = state_at st"
  by (auto simp: state_at_def fun_eq_iff)

text \<open>
  Claim C1, amended. On a graph whose nodes take as inputs only graph inputs and outputs of
  earlier nodes, and whose regions' nested blocks have as outputs only such values or
  outputs of their own nodes, every value that the dispatch logic reads from the
  classification map has had a classification assigned before the read, or is an output of a
  node that an earlier iteration spliced out of a nested block. The iteration at a region
  assigns no classification, which is why the outputs of the nodes it splices have none. A
  value with no assigned classification yields \<open>Nonzero\<close>, the value-initialised state,
  when it is looked up: the iteration does to the graph exactly what it does when the value
  has been classified \<open>Nonzero\<close>.
\<close>

theorem C1_reads_classified_or_spliced:
  assumes "closed (set (graph_inputs g)) (graph_nodes g)"
  shows "reads_accounted [] (begin_scan g) \<and>
         (\<forall>c n post c'. rest c = n # post \<and> kind n = GradOf \<and> visit c = Inr c' \<longrightarrow>
            state c' = state c) \<and>
         (\<forall>c v. state c v = None \<longrightarrow>
            state_at (state c) v = Nonzero \<and>
            outcome (visit (c\<lparr>state := (state c)(v \<mapsto> Nonzero)\<rparr>)) = outcome (visit c))"
proof -
  have "closed (dom (state (begin_scan g)) \<union> set []) (rest (begin_scan g))"
    using assms by (simp add: begin_scan_def dom_seed)
  then have "reads_accounted [] (begin_scan g)"
    by (rule reads_accounted_scan)
  moreover have "state c' = state c"
    if "rest c = n # post" "kind n = GradOf" "visit c = Inr c'" for c n post c'
    using that by (auto simp: visit_def dest: visit_GradOf_state)
  moreover have "outcome (visit (c\<lparr>state := (state c)(v \<mapsto> Nonzero)\<rparr>)) = outcome (visit c)"
    if "state c v = None" for c v
    using that by (intro outcome_visit_state state_at_default)
  moreover have "state_at (state c) v = Nonzero" if "state c v = None" for c :: Scan and v
    using that by (simp add: state_at_def)
  ultimately show ?thesis by blast
qed

theorem C1_reads_classified_or_spliced_witness:
  "closed (set (graph_inputs spliced_then_read)) (graph_nodes spliced_then_read) \<and>
   reads_accounted [] (begin_scan spliced_then_read) \<and>
   reads (begin_scan spliced_then_read) = [4, 4] \<and>
   state (begin_scan spliced_then_read) 4 = Some Nonzero \<and>
   spliced (begin_scan spliced_then_read) = [Node 22 (OtherKind 2) [4] [10] []] \<and>
   (\<exists>c. visit (begin_scan spliced_then_read) = Inr c \<and>
      state c = state (begin_scan spliced_then_read) \<and>
      reads c = [10, 4, 10, 4] \<and> state c 10 = None \<and> state_at (state c) 10 = Nonzero \<and>
      outcome (visit (c\<lparr>state := (state c)(10 \<mapsto> Nonzero)\<rparr>)) = outcome (visit c) \<and>
      outcome (visit c) =
        (None, [Node 22 (OtherKind 2) [4] [10] [], Node 24 aten_add [10, 4] [24] []], [], [24],
         25))"
proof -
  let ?c0 = "begin_scan spliced_then_read"
  have h: "closed (set (graph_inputs spliced_then_read)) (graph_nodes spliced_then_read)"
    by code_simp
  have r0: "reads ?c0 = [4, 4]" "state ?c0 4 = Some Nonzero"
    "spliced ?c0 = [Node 22 (OtherKind 2) [4] [10] []]"
    by code_simp+
  have k: "rest ?c0 = hd (rest ?c0) # tl (rest ?c0) \<and> kind (hd (rest ?c0)) = GradOf"
    by code_simp
  have "case visit ?c0 of
          Inl e \<Rightarrow> False
        | Inr c \<Rightarrow> reads c = [10, 4, 10, 4] \<and> state c 10 = None \<and>
            outcome (visit c) =
              (None, [Node 22 (OtherKind 2) [4] [10] [], Node 24 aten_add [10, 4] [24] []], [],
               [24], 25)"
    by code_simp
  then obtain c where v: "visit ?c0 = Inr c" and r1: "reads c = [10, 4, 10, 4]"
    and s1: "state c 10 = None"
    and o1: "outcome (visit c) =
              (None, [Node 22 (OtherKind 2) [4] [10] [], Node 24 aten_add [10, 4] [24] []], [],
               [24], 25)"
    by (cases "visit ?c0") auto
  from C1_reads_classified_or_spliced [OF h] h r0 k v r1 s1 o1
  show ?thesis by blast
qed

end
